theory Spec2Isabelle
  imports Main
begin

section \<open>Text and characters\<close>

text \<open>
  The script \<^verbatim>\<open>scripts/sync_splash_color.py\<close> reads two files with
  \<^verbatim>\<open>Path.read_text(encoding='utf-8')\<close>, so it works on Python \<^verbatim>\<open>str\<close> values:
  sequences of Unicode code points. A code point is a natural number here and a text is
  a list of them. \<open>str\<close> turns an ASCII literal of this theory into such a text.
\<close>

type_synonym pystr = "nat list"

definition str :: "string \<Rightarrow> pystr" where
  "str s = map of_char s"

text \<open>
  \<^verbatim>\<open>str.upper()\<close>, on the ASCII letters. The script applies it to group 1 of the theme
  pattern only, which holds characters of \<^verbatim>\<open>[0-9A-Fa-f]\<close>.
\<close>

definition upper_char :: "nat \<Rightarrow> nat" where
  "upper_char c = (if 97 \<le> c \<and> c \<le> 122 then c - 32 else c)"

definition upper :: "pystr \<Rightarrow> pystr" where
  "upper s = map upper_char s"

section \<open>The regular expressions of the script\<close>

text \<open>
  A character set of a pattern: \<^verbatim>\<open>\s\<close>, which on \<^verbatim>\<open>str\<close> patterns is the Unicode
  white space of \<^verbatim>\<open>str.isspace\<close>, or a bracket expression given by its ranges.
\<close>

datatype cls = Space | Ranges "(nat \<times> nat) list"

fun in_cls :: "cls \<Rightarrow> nat \<Rightarrow> bool" where
  "in_cls Space c =
     ((9 \<le> c \<and> c \<le> 13) \<or> (28 \<le> c \<and> c \<le> 32) \<or> c = 133 \<or> c = 160 \<or> c = 5760
      \<or> (8192 \<le> c \<and> c \<le> 8202) \<or> c = 8232 \<or> c = 8233 \<or> c = 8239 \<or> c = 8287
      \<or> c = 12288)"
| "in_cls (Ranges rs) c = list_ex (\<lambda>(lo, hi). lo \<le> c \<and> c \<le> hi) rs"

text \<open>
  The patterns of the script are sequences of: a literal character, a greedy repeat of a
  character set (\<^verbatim>\<open>*\<close> is \<open>Rep c 0 None\<close>, \<^verbatim>\<open>+\<close> is \<open>Rep c 1 None\<close>, \<^verbatim>\<open>{6}\<close> is
  \<open>Rep c 6 (Some 6)\<close>), the anchors \<^verbatim>\<open>^\<close> and \<^verbatim>\<open>$\<close> under \<^verbatim>\<open>re.MULTILINE\<close>, and the
  parentheses of a group, each of which is a \<open>Mark\<close>: the text matched between the first
  and second mark is group 1, between the third and fourth group 2.
\<close>

datatype item = Lit nat | Rep cls nat "nat option" | Bol | Eol | Mark

definition lits :: "string \<Rightarrow> item list" where
  "lits s = map Lit (str s)"

definition space_class :: cls where
  "space_class = Space"

definition hex_class :: cls where
  \<comment> \<open>\<^verbatim>\<open>[0-9A-Fa-f]\<close>\<close>
  "hex_class = Ranges [(48, 57), (65, 70), (97, 102)]"

definition color_class :: cls where
  \<comment> \<open>\<^verbatim>\<open>[#0-9A-Fa-f]\<close>\<close>
  "color_class = Ranges [(35, 35), (48, 57), (65, 70), (97, 102)]"

definition pattern_theme :: "item list" where
  \<comment> \<open>\<^verbatim>\<open>themePrimaryColorValue\s*=\s*0xFF([0-9A-Fa-f]{6})\<close>\<close>
  "pattern_theme =
     lits ''themePrimaryColorValue'' @ [Rep space_class 0 None] @ lits ''='' @
     [Rep space_class 0 None] @ lits ''0xFF'' @
     [Mark, Rep hex_class 6 (Some 6), Mark]"

definition value_tail :: "item list" where
  \<comment> \<open>\<^verbatim>\<open>[#0-9A-Fa-f]+("\s*$)\<close>, after the closing parenthesis of group 1\<close>
  "value_tail =
     [Rep color_class 1 None, Mark, Lit 34, Rep space_class 0 None, Eol, Mark]"

definition pattern_root :: "item list" where
  \<comment> \<open>\<^verbatim>\<open>(^\s*color:\s*\")[#0-9A-Fa-f]+(\"\s*$)\<close>\<close>
  "pattern_root =
     [Mark, Bol, Rep space_class 0 None] @ lits ''color:'' @
     [Rep space_class 0 None, Lit 34, Mark] @ value_tail"

definition pattern_android12 :: "item list" where
  \<comment> \<open>\<^verbatim>\<open>(^\s*android_12:\s*\n\s*color:\s*\")[#0-9A-Fa-f]+(\"\s*$)\<close>\<close>
  "pattern_android12 =
     [Mark, Bol, Rep space_class 0 None] @ lits ''android_12:'' @
     [Rep space_class 0 None, Lit 10, Rep space_class 0 None] @ lits ''color:'' @
     [Rep space_class 0 None, Lit 34, Mark] @ value_tail"

section \<open>Matching\<close>

text \<open>
  Python's \<^verbatim>\<open>re\<close> is a backtracking matcher. The state of a match attempt is the
  character before the current position (\<open>None\<close> at the start of the text), the text
  still to read, the text consumed since the last mark and the segments closed by the
  marks so far. A continuation is what remains of the pattern; it answers with the
  segments and the unread text of the first way it finds to match, or with \<open>None\<close>.
\<close>

type_synonym mres = "(pystr list \<times> pystr) option"
type_synonym cont = "nat option \<Rightarrow> pystr \<Rightarrow> pystr \<Rightarrow> pystr list \<Rightarrow> mres"

definition finish :: cont where
  "finish p r cur segs = Some (segs @ [cur], r)"

text \<open>
  A greedy repeat takes a character of the set while it may, and gives characters back
  one at a time while the rest of the pattern fails, down to its minimum.
\<close>

fun rep :: "cls \<Rightarrow> nat \<Rightarrow> nat option \<Rightarrow> cont \<Rightarrow> cont" where
  "rep c lo hi k p [] cur segs = (if lo = 0 then k p [] cur segs else None)"
| "rep c lo hi k p (x # r) cur segs =
     (case (if in_cls c x \<and> hi \<noteq> Some 0
            then rep c (lo - 1) (map_option (\<lambda>n. n - 1) hi) k (Some x) r (cur @ [x]) segs
            else None) of
        Some res \<Rightarrow> Some res
      | None \<Rightarrow> if lo = 0 then k p (x # r) cur segs else None)"

fun step :: "item \<Rightarrow> cont \<Rightarrow> cont" where
  "step (Lit c) k p r cur segs =
     (case r of [] \<Rightarrow> None
      | x # r' \<Rightarrow> if x = c then k (Some x) r' (cur @ [x]) segs else None)"
| "step (Rep c lo hi) k p r cur segs = rep c lo hi k p r cur segs"
| "step Bol k p r cur segs =
     (if p = None \<or> p = Some 10 then k p r cur segs else None)"
| "step Eol k p r cur segs =
     (case r of [] \<Rightarrow> k p r cur segs
      | x # r' \<Rightarrow> if x = 10 then k p r cur segs else None)"
| "step Mark k p r cur segs = k p r [] (segs @ [cur])"

primrec m :: "item list \<Rightarrow> cont" where
  "m [] = finish"
| "m (x # ops) = step x (m ops)"

definition last_opt :: "pystr \<Rightarrow> nat option" where
  "last_opt s = (if s = [] then None else Some (last s))"

text \<open>
  \<^verbatim>\<open>re.search\<close> and the scan of \<^verbatim>\<open>subn\<close>: a match is attempted at every position
  from the left, the end of the text included, and the first that succeeds is taken. The
  answer is the text before the match, the segments of the match and the text after it.
\<close>

fun search :: "item list \<Rightarrow> pystr \<Rightarrow> pystr \<Rightarrow> (pystr \<times> pystr list \<times> pystr) option" where
  "search ops pre [] =
     (case m ops (last_opt pre) [] [] [] of
        Some (segs, rest) \<Rightarrow> Some (pre, segs, rest)
      | None \<Rightarrow> None)"
| "search ops pre (x # r) =
     (case m ops (last_opt pre) (x # r) [] [] of
        Some (segs, rest) \<Rightarrow> Some (pre, segs, rest)
      | None \<Rightarrow> search ops (pre @ [x]) r)"

definition group :: "pystr list \<Rightarrow> nat \<Rightarrow> pystr" where
  "group segs n = segs ! (2 * n - 1)"

text \<open>
  \<^verbatim>\<open>pattern.subn(repl, text, count=1)\<close>: the first match is replaced by the expansion
  of the template, everything else is kept, and the number of replacements is returned.
\<close>

definition subn1 :: "item list \<Rightarrow> (pystr list \<Rightarrow> pystr) \<Rightarrow> pystr \<Rightarrow> pystr \<times> nat" where
  "subn1 ops repl text =
     (case search ops [] text of
        None \<Rightarrow> (text, 0)
      | Some (pre, segs, rest) \<Rightarrow> (pre @ repl segs @ rest, 1))"

text \<open>
  The template \<^verbatim>\<open>rf"\1{hex_color}\2"\<close>. Python builds the template text first and parses
  its escapes afterwards; for a \<open>hex_color\<close> that starts with \<^verbatim>\<open>#\<close> and has no backslash,
  as every value that \<open>extract_theme_hex\<close> returns, the template is group 1, the colour
  as it is, group 2.
\<close>

definition template :: "pystr \<Rightarrow> pystr list \<Rightarrow> pystr" where
  "template hex_color segs = group segs 1 @ hex_color @ group segs 2"

section \<open>The script\<close>

text \<open>
  The two files, as the texts that \<^verbatim>\<open>read_text\<close> returns and \<^verbatim>\<open>write_text\<close> stores.
  A function that may write returns the files as it leaves them, also when it raises.
\<close>

record files =
  app_config :: pystr
  pubspec :: pystr

datatype error = SystemExit string

definition missing_theme_message :: string where
  "missing_theme_message =
     ''Could not find `themePrimaryColorValue = 0xFF......` in app_config.dart''"

definition missing_fields_message :: string where
  "missing_fields_message =
     ''Could not update flutter_native_splash colors in pubspec.yaml. '' @
     ''Expected `color` and `android_12 -> color` entries.''"

definition extract_theme_hex :: "files \<Rightarrow> error + pystr" where
  "extract_theme_hex fs =
     (let text = app_config fs in
      case search pattern_theme [] text of
        None \<Rightarrow> Inl (SystemExit missing_theme_message)
      | Some (pre, segs, rest) \<Rightarrow> Inr (str ''#'' @ upper (group segs 1)))"

definition update_pubspec :: "pystr \<Rightarrow> files \<Rightarrow> (error + bool) \<times> files" where
  "update_pubspec hex_color fs =
     (let text = pubspec fs;
          (new_text1, count_root) = subn1 pattern_root (template hex_color) text;
          (new_text, count_a12) = subn1 pattern_android12 (template hex_color) new_text1
      in if count_root = 0 \<or> count_a12 = 0
         then (Inl (SystemExit missing_fields_message), fs)
         else if new_text \<noteq> text
         then (Inr True, fs\<lparr>pubspec := new_text\<rparr>)
         else (Inr False, fs))"

text \<open>\<open>main\<close> returns the files as it leaves them and the lines it has printed.\<close>

definition main :: "files \<Rightarrow> (error + unit) \<times> files \<times> pystr list" where
  "main fs =
     (case extract_theme_hex fs of
        Inl e \<Rightarrow> (Inl e, fs, [])
      | Inr hex_color \<Rightarrow>
          (case update_pubspec hex_color fs of
             (Inl e, fs') \<Rightarrow> (Inl e, fs', [])
           | (Inr changed, fs') \<Rightarrow>
               (let status = (if changed then str ''updated'' else str ''already in sync'')
                in (Inr (), fs', [str ''Splash color '' @ status @ str '': '' @ hex_color]))))"

text \<open>
  The colour strings of the specification: \<^verbatim>\<open>#\<close> and six upper-case hexadecimal digits.
\<close>

definition upper_hex_class :: cls where
  "upper_hex_class = Ranges [(48, 57), (65, 70)]"

definition hex_color_string :: "pystr \<Rightarrow> bool" where
  "hex_color_string h =
     (case h of [] \<Rightarrow> False
      | c # d \<Rightarrow> c = 35 \<and> length d = 6 \<and> list_all (in_cls upper_hex_class) d)"

section \<open>Notions used in the statements and proofs\<close>

text \<open>The texts used in the examples.\<close>

definition nl :: pystr where
  "nl = [10]"

text \<open>A declaration file, and manifests with both colour fields set to \<open>c\<close>.\<close>

definition scenario_declaration :: pystr where
  "scenario_declaration =
     str ''class AppConfig {'' @ nl @
     str ''  static const int themePrimaryColorValue = 0xFF2196F3;'' @ nl @
     str ''}'' @ nl"

definition scenario_manifest :: "string \<Rightarrow> pystr" where
  "scenario_manifest c =
     str ''flutter_native_splash:'' @ nl @
     str ''  color: \"'' @ str c @ str ''\"'' @ nl @
     str ''  image: assets/logo.png'' @ nl @
     str ''  android_12:'' @ nl @
     str ''    color: \"'' @ str c @ str ''\"'' @ nl"

definition spec_manifest :: "string \<Rightarrow> pystr" where
  "spec_manifest c =
     str ''color: \"'' @ str c @ str ''\"'' @ nl @
     str ''android_12:'' @ nl @
     str ''  color: \"'' @ str c @ str ''\"'' @ nl"

text \<open>
  A value of a colour field: a text that is not empty and has only characters of
  \<^verbatim>\<open>[#0-9A-Fa-f]\<close>.
\<close>

definition colorstr :: "pystr \<Rightarrow> bool" where
  "colorstr v = (v \<noteq> [] \<and> list_all (in_cls color_class) v)"

text \<open>
  Two match attempts on texts that differ in one quoted value only (\<open>v\<close> in the one,
  \<open>h\<close> in the other, both followed by \<open>y\<close>) correspond when both fail, or both end before
  the value with the same segments, or both take the value as the segment of their value
  part. \<open>Q\<close> says so of a continuation started before the opening quote, \<open>Qb\<close> of one
  started right after it.
\<close>

definition sim :: "pystr \<Rightarrow> pystr \<Rightarrow> pystr \<Rightarrow> mres \<Rightarrow> mres \<Rightarrow> bool" where
  "sim v h y res res' =
     ((res = None \<and> res' = None) \<or>
      (\<exists>segs b. res = Some (segs, b @ v @ y) \<and> res' = Some (segs, b @ h @ y)) \<or>
      (\<exists>S w rest. res = Some (S @ [v, 34 # w, []], rest) \<and>
         res' = Some (S @ [h, 34 # w, []], rest) \<and> y = 34 # w @ rest))"

definition Q :: "pystr \<Rightarrow> pystr \<Rightarrow> pystr \<Rightarrow> cont \<Rightarrow> bool" where
  "Q v h y k = (\<forall>x p cur segs.
     sim v h y (k p (x @ 34 # v @ y) cur segs) (k p (x @ 34 # h @ y) cur segs))"

definition Qb :: "pystr \<Rightarrow> pystr \<Rightarrow> pystr \<Rightarrow> cont \<Rightarrow> bool" where
  "Qb v h y k = (\<forall>cur segs.
     sim v h y (k (Some 34) (v @ y) cur segs) (k (Some 34) (h @ y) cur segs))"

text \<open>
  The end of a field pattern after its closing quote, \<^verbatim>\<open>\s*$\<close>, and what it takes
  from a text: the longest run of white space that ends at the end of a line.
\<close>

definition quote_tail :: "item list" where
  "quote_tail = [Rep space_class 0 None, Eol, Mark]"

fun trail :: "pystr \<Rightarrow> (pystr \<times> pystr) option" where
  "trail [] = Some ([], [])"
| "trail (x # r) =
     (case (if in_cls space_class x then trail r else None) of
        Some (w, rest) \<Rightarrow> Some (x # w, rest)
      | None \<Rightarrow> if x = 10 then Some ([], x # r) else None)"

text \<open>
  The same correspondence for the results of \<open>search\<close>; \<open>X\<close> is the text before the
  value.
\<close>

definition sims :: "pystr \<Rightarrow> pystr \<Rightarrow> pystr \<Rightarrow> pystr \<Rightarrow>
    (pystr \<times> pystr list \<times> pystr) option \<Rightarrow> (pystr \<times> pystr list \<times> pystr) option \<Rightarrow> bool" where
  "sims v h y X res res' =
     ((res = None \<and> res' = None) \<or>
      (\<exists>a segs b. res = Some (a, segs, b @ v @ y) \<and> res' = Some (a, segs, b @ h @ y)) \<or>
      (\<exists>a S w rest. res = Some (a, S @ [v, 34 # w, []], rest) \<and>
         res' = Some (a, S @ [h, 34 # w, []], rest) \<and> y = 34 # w @ rest) \<or>
      (\<exists>a0 segs rest. res = Some (X @ v @ a0, segs, rest) \<and> res' = Some (X @ h @ a0, segs, rest)))"

text \<open>
  The shape that the two patterns of the manifest share.
\<close>

definition field_pattern :: "item list \<Rightarrow> bool" where
  "field_pattern P = (\<exists>A. P = Mark # Bol # A @ Lit 34 # Mark # value_tail \<and> Mark \<notin> set A)"

text \<open>
  \<open>first_match P text a segs b\<close>: the pattern matches at the end of \<open>a\<close> with segments
  \<open>segs\<close>, leaving \<open>b\<close>, and at no position further left.
\<close>

definition first_match :: "item list \<Rightarrow> pystr \<Rightarrow> pystr \<Rightarrow> pystr list \<Rightarrow> pystr \<Rightarrow> bool" where
  "first_match P text a segs b =
     (text = a @ concat segs @ b \<and>
      m P (last_opt a) (concat segs @ b) [] [] = Some (segs, b) \<and>
      (\<forall>i<length a. m P (last_opt (take i text)) (drop i text) [] [] = None))"

text \<open>
  The identifier of the theme pattern. Its first letter occurs nowhere else in the
  pattern, so an attempt that starts before an occurrence of the identifier cannot read
  past that letter: whether it fails does not depend on the text after it (\<open>barrier\<close>).
\<close>

definition ident :: pystr where
  "ident = str ''themePrimaryColorValue''"

definition barrier :: "cont \<Rightarrow> bool" where
  "barrier k = (\<forall>x p cur segs z z'.
     (k p (x @ 116 # z) cur segs = None) = (k p (x @ 116 # z') cur segs = None))"

section \<open>Lemmas\<close>

lemmas eval_defs = str_def lits_def pattern_theme_def pattern_root_def pattern_android12_def
  value_tail_def space_class_def hex_class_def color_class_def finish_def last_opt_def
  group_def template_def subn1_def upper_def upper_char_def extract_theme_hex_def
  update_pubspec_def main_def missing_theme_message_def missing_fields_message_def

lemma color_not_quote: "in_cls color_class c \<Longrightarrow> c \<noteq> 34"
  by (auto simp: color_class_def)

lemma color_not_space: "in_cls color_class c \<Longrightarrow> \<not> in_cls space_class c"
  by (auto simp: color_class_def space_class_def)

lemma color_not_nl: "in_cls color_class c \<Longrightarrow> c \<noteq> 10"
  by (auto simp: color_class_def)

lemma space_not_quote: "\<not> in_cls space_class 34"
  by (simp add: space_class_def)

lemma sim_cases: "sim v h y a b \<Longrightarrow> (a = None \<and> b = None) \<or> (\<exists>ra rb. a = Some ra \<and> b = Some rb)"
  by (auto simp: sim_def)

lemma sim_None: "sim v h y None None"
  by (simp add: sim_def)

lemma sim_before: "sim v h y (Some (segs, b @ v @ y)) (Some (segs, b @ h @ y))"
  unfolding sim_def by blast

lemma Q_finish: "Q v h y finish"
  unfolding Q_def finish_def
proof (intro allI)
  fix x :: pystr and p :: "nat option" and cur :: pystr and segs :: "pystr list"
  show "sim v h y (Some (segs @ [cur], x @ 34 # v @ y)) (Some (segs @ [cur], x @ 34 # h @ y))"
    using sim_before[of v h y "segs @ [cur]" "x @ [34]"] by simp
qed

lemma Q_Mark: "Q v h y k \<Longrightarrow> Q v h y (step Mark k)"
  by (simp add: Q_def)

lemma Q_Bol: "Q v h y k \<Longrightarrow> Q v h y (step Bol k)"
  by (simp add: Q_def sim_def)

lemma Q_Eol: "Q v h y k \<Longrightarrow> Q v h y (step Eol k)"
  unfolding Q_def
proof (intro allI)
  fix x :: pystr and p :: "nat option" and cur :: pystr and segs :: "pystr list"
  assume k: "\<forall>x p cur segs. sim v h y (k p (x @ 34 # v @ y) cur segs) (k p (x @ 34 # h @ y) cur segs)"
  show "sim v h y (step Eol k p (x @ 34 # v @ y) cur segs) (step Eol k p (x @ 34 # h @ y) cur segs)"
  proof (cases x)
    case Nil
    then show ?thesis by (simp add: sim_None)
  next
    case (Cons c x')
    then show ?thesis using k[rule_format, of p x cur segs] by (cases "c = 10") (simp_all add: sim_None)
  qed
qed

lemma Q_Lit: "Q v h y k \<Longrightarrow> (c = 34 \<Longrightarrow> Qb v h y k) \<Longrightarrow> Q v h y (step (Lit c) k)"
  unfolding Q_def
proof (intro allI)
  fix x :: pystr and p :: "nat option" and cur :: pystr and segs :: "pystr list"
  assume k: "\<forall>x p cur segs. sim v h y (k p (x @ 34 # v @ y) cur segs) (k p (x @ 34 # h @ y) cur segs)"
    and kb: "c = 34 \<Longrightarrow> Qb v h y k"
  show "sim v h y (step (Lit c) k p (x @ 34 # v @ y) cur segs) (step (Lit c) k p (x @ 34 # h @ y) cur segs)"
  proof (cases x)
    case Nil
    then show ?thesis using kb by (cases "c = 34") (simp_all add: sim_None Qb_def)
  next
    case (Cons c' x')
    then show ?thesis using k[rule_format, of "Some c'" x' "cur @ [c']" segs]
      by (cases "c' = c") (simp_all add: sim_None)
  qed
qed

lemma Q_rep:
  assumes k: "Q v h y k" and c: "\<not> in_cls c 34"
  shows "sim v h y (rep c lo hi k p (x @ 34 # v @ y) cur segs) (rep c lo hi k p (x @ 34 # h @ y) cur segs)"
proof (induction x arbitrary: lo hi p cur)
  case Nil
  then show ?case using k[unfolded Q_def, rule_format, of p "[]" cur segs] c
    by (cases "lo = 0") (simp_all add: sim_None)
next
  case (Cons a x)
  note K = k[unfolded Q_def, rule_format, of p "a # x" cur segs]
  show ?case
  proof (cases "in_cls c a \<and> hi \<noteq> Some 0")
    case True
    from sim_cases[OF Cons[of "lo - 1" "map_option (\<lambda>n. n - 1) hi" "Some a" "cur @ [a]"]]
    show ?thesis
    proof
      assume "rep c (lo - 1) (map_option (\<lambda>n. n - 1) hi) k (Some a) (x @ 34 # v @ y) (cur @ [a]) segs = None \<and>
              rep c (lo - 1) (map_option (\<lambda>n. n - 1) hi) k (Some a) (x @ 34 # h @ y) (cur @ [a]) segs = None"
      then show ?thesis using True K by (cases "lo = 0") (simp_all add: sim_None)
    next
      assume "\<exists>ra rb. rep c (lo - 1) (map_option (\<lambda>n. n - 1) hi) k (Some a) (x @ 34 # v @ y) (cur @ [a]) segs = Some ra \<and>
              rep c (lo - 1) (map_option (\<lambda>n. n - 1) hi) k (Some a) (x @ 34 # h @ y) (cur @ [a]) segs = Some rb"
      then show ?thesis using True Cons[of "lo - 1" "map_option (\<lambda>n. n - 1) hi" "Some a" "cur @ [a]"] by auto
    qed
  next
    case False
    then show ?thesis using K by (cases "lo = 0") (auto simp: sim_None)
  qed
qed

lemma Q_Rep: "Q v h y k \<Longrightarrow> \<not> in_cls c 34 \<Longrightarrow> Q v h y (step (Rep c lo hi) k)"
  using Q_rep by (simp add: Q_def)

lemma trail_split: "trail r = Some (w, rest) \<Longrightarrow> r = w @ rest"
  by (induction r arbitrary: w rest) (auto split: if_splits option.splits)

lemma m_quote_tail:
  "m quote_tail p r cur segs = map_option (\<lambda>(w, rest). (segs @ [cur @ w, []], rest)) (trail r)"
proof -
  have "rep space_class 0 None (step Eol (step Mark finish)) p r cur segs =
        map_option (\<lambda>(w, rest). (segs @ [cur @ w, []], rest)) (trail r)"
  proof (induction r arbitrary: p cur)
    case Nil
    then show ?case by (simp add: finish_def)
  next
    case (Cons x r)
    show ?case
    proof (cases "in_cls space_class x")
      case True
      then show ?thesis using Cons[of "Some x" "cur @ [x]"]
        by (cases "trail r") (auto simp: finish_def)
    next
      case False
      then show ?thesis by (simp add: finish_def)
    qed
  qed
  then show ?thesis by (simp add: quote_tail_def)
qed

lemma rep_color_value:
  assumes "list_all (in_cls color_class) v"
  shows "rep color_class lo None (step Mark (step (Lit 34) k)) p (v @ 34 # y') cur segs =
         (if lo \<le> length v then k (Some 34) y' [34] (segs @ [cur @ v]) else None)"
  using assms
proof (induction v arbitrary: lo p cur)
  case Nil
  then show ?case by (simp add: color_class_def)
next
  case (Cons a v)
  then have a: "in_cls color_class a" "a \<noteq> 34" and v: "list_all (in_cls color_class) v"
    using color_not_quote by auto
  show ?case
    using Cons.IH[OF v, of "lo - 1" "Some a" "cur @ [a]"] a
    by (auto split: option.splits)
qed

lemma value_tail_eq: "value_tail = Rep color_class 1 None # Mark # Lit 34 # quote_tail"
  by (simp add: value_tail_def quote_tail_def)

lemma m_value_tail:
  assumes "colorstr v"
  shows "m (Mark # value_tail) p (v @ 34 # y') cur segs =
         map_option (\<lambda>(w, rest). (segs @ [cur, v, 34 # w, []], rest)) (trail y')"
proof -
  have "1 \<le> length v" using assms by (cases v) (auto simp: colorstr_def)
  then show ?thesis
    using assms rep_color_value[of v 1 "m quote_tail" p y' "[]" "segs @ [cur]"]
    by (simp add: value_tail_eq colorstr_def m_quote_tail)
qed

lemma Qb_value:
  assumes "colorstr v" "colorstr h"
  shows "Qb v h (34 # y') (m (Mark # value_tail))"
  unfolding Qb_def
proof (intro allI)
  fix cur :: pystr and segs :: "pystr list"
  show "sim v h (34 # y') (m (Mark # value_tail) (Some 34) (v @ 34 # y') cur segs)
          (m (Mark # value_tail) (Some 34) (h @ 34 # y') cur segs)"
  proof (cases "trail y'")
    case None
    then show ?thesis
      unfolding m_value_tail[OF assms(1)] m_value_tail[OF assms(2)] by (simp add: sim_None)
  next
    case (Some a)
    obtain w rest where a: "a = (w, rest)" by (cases a)
    have "y' = w @ rest" using Some a trail_split by simp
    then show ?thesis
      unfolding sim_def m_value_tail[OF assms(1)] m_value_tail[OF assms(2)] Some a
      by (intro disjI2) (rule exI[of _ "segs @ [cur]"], rule exI[of _ w], rule exI[of _ rest], simp)
  qed
qed

lemma Qb_quote_tail:
  assumes "colorstr v" "colorstr h"
  shows "Qb v h y (m quote_tail)"
proof -
  obtain a v' where v: "v = a # v'" "in_cls color_class a" using assms(1) by (cases v) (auto simp: colorstr_def)
  obtain b h' where h: "h = b # h'" "in_cls color_class b" using assms(2) by (cases h) (auto simp: colorstr_def)
  have "trail (v @ y) = None" "trail (h @ y) = None"
    using v h color_not_space color_not_nl by auto
  then show ?thesis by (simp add: Qb_def m_quote_tail sim_None)
qed

lemmas Q_intros = Q_finish Q_Mark Q_Bol Q_Eol Q_Rep Q_Lit

lemma Q_value_tail:
  assumes "colorstr v" "colorstr h" 
  shows "Q v h (34 # y') (m (Lit 34 # Mark # value_tail))"
proof -
  have q: "Q v h (34 # y') (m quote_tail)"
    by (simp add: quote_tail_def Q_intros space_class_def)
  have "Q v h (34 # y') (step (Lit 34) (m quote_tail))"
    by (rule Q_Lit[OF q Qb_quote_tail[OF assms]])
  then have "Q v h (34 # y') (m (Mark # value_tail))"
    by (simp add: value_tail_eq Q_intros color_class_def)
  then show ?thesis
    using Q_Lit[OF _ Qb_value[OF assms], of y' 34] by simp
qed

lemma Q_lits: "Q v h y (m ops) \<Longrightarrow> 34 \<notin> set w \<Longrightarrow> Q v h y (m (map Lit w @ ops))"
  by (induction w) (auto intro: Q_Lit)

lemma Q_root:
  assumes "colorstr v" "colorstr h" 
  shows "Q v h (34 # y') (m pattern_root)"
proof -
  have "Q v h (34 # y') (m (Rep space_class 0 None # Lit 34 # Mark # value_tail))"
    using Q_Rep[OF Q_value_tail[OF assms] space_not_quote] by simp
  then have "Q v h (34 # y') (m (lits ''color:'' @ Rep space_class 0 None # Lit 34 # Mark # value_tail))"
    unfolding lits_def by (rule Q_lits) (simp add: str_def)
  then show ?thesis
    by (simp add: pattern_root_def Q_intros space_not_quote)
qed

lemma Q_android12:
  assumes "colorstr v" "colorstr h" 
  shows "Q v h (34 # y') (m pattern_android12)"
proof -
  have "Q v h (34 # y') (m (Rep space_class 0 None # Lit 34 # Mark # value_tail))"
    using Q_Rep[OF Q_value_tail[OF assms] space_not_quote] by simp
  then have "Q v h (34 # y') (m (lits ''color:'' @ Rep space_class 0 None # Lit 34 # Mark # value_tail))"
    unfolding lits_def by (rule Q_lits) (simp add: str_def)
  then have "Q v h (34 # y') (m (Rep space_class 0 None # Lit 10 # Rep space_class 0 None # lits ''color:'' @ Rep space_class 0 None # Lit 34 # Mark # value_tail))"
    by (simp add: Q_intros space_not_quote)
  then have "Q v h (34 # y') (m (lits ''android_12:'' @ Rep space_class 0 None # Lit 10 # Rep space_class 0 None # lits ''color:'' @ Rep space_class 0 None # Lit 34 # Mark # value_tail))"
    unfolding lits_def[of "''android_12:''"] by (rule Q_lits) (simp add: str_def)
  then show ?thesis
    by (simp add: pattern_android12_def Q_intros space_not_quote)
qed

lemma m_no_bol: "p \<noteq> None \<Longrightarrow> p \<noteq> Some 10 \<Longrightarrow> m (Mark # Bol # ops) p r cur segs = None"
  by auto

lemma last_opt_snoc [simp]: "last_opt (b @ [x]) = Some x"
  by (simp add: last_opt_def)

lemma search_skip:
  assumes P: "P = Mark # Bol # ops"
  shows "b \<noteq> [] \<Longrightarrow> last b \<noteq> 10 \<Longrightarrow> 10 \<notin> set w \<Longrightarrow> search P b (w @ r) = search P (b @ w) r"
proof (induction w arbitrary: b)
  case Nil
  then show ?case by simp
next
  case (Cons x w)
  have "m P (last_opt b) ((x # w) @ r) [] [] = None"
    using Cons.prems unfolding P by (intro m_no_bol) (auto simp: last_opt_def)
  then have "search P b ((x # w) @ r) = search P (b @ [x]) (w @ r)" by simp
  also have "\<dots> = search P ((b @ [x]) @ w) r"
    using Cons.prems by (intro Cons.IH) auto
  finally show ?case by simp
qed

lemma search_shift:
  "last_opt b = last_opt b' \<Longrightarrow>
   (search P b r = None \<longrightarrow> search P b' r = None) \<and>
   (\<forall>a s r'. search P b r = Some (a, s, r') \<longrightarrow>
      (\<exists>a0. a = b @ a0 \<and> search P b' r = Some (b' @ a0, s, r')))"
proof (induction r arbitrary: b b')
  case Nil
  then show ?case by (auto split: option.splits)
next
  case (Cons x r)
  show ?case
  proof (cases "m P (last_opt b) (x # r) [] []")
    case None
    have "last_opt (b @ [x]) = last_opt (b' @ [x])" by simp
    from Cons.IH[OF this] show ?thesis using None Cons.prems by auto
  next
    case (Some a)
    then show ?thesis using Cons.prems by (auto split: prod.splits)
  qed
qed

lemma sims_after: "sims v h y X (Some (X @ v @ a0, segs, rest)) (Some (X @ h @ a0, segs, rest))"
  unfolding sims_def by blast

lemma sim_sims:
  assumes "sim v h y r1 r2" "r1 = Some ra"
  shows "\<exists>rb. r2 = Some rb \<and> sims v h y X (Some (a, fst ra, snd ra)) (Some (a, fst rb, snd rb))"
  using assms unfolding sim_def sims_def by auto

lemma search_sim:
  assumes P: "P = Mark # Bol # ops" and Q: "Q v h (34 # y') (m P)"
    and v: "colorstr v" and h: "colorstr h"
  shows "sims v h (34 # y') (b @ x @ [34]) (search P b (x @ 34 # v @ 34 # y')) (search P b (x @ 34 # h @ 34 # y'))"
proof (induction x arbitrary: b)
  case Nil
  note q = Q[unfolded Q_def, rule_format, of "last_opt b" "[]" "[]" "[]", simplified]
  have "sims v h (34 # y') (b @ [34]) (search P b (34 # v @ 34 # y')) (search P b (34 # h @ 34 # y'))"
  proof (cases "m P (last_opt b) (34 # v @ 34 # y') [] [] = None \<and> m P (last_opt b) (34 # h @ 34 # y') [] [] = None")
    case True
    have nv: "10 \<notin> set (v @ [34])" and nh: "10 \<notin> set (h @ [34])"
      using v h color_not_nl by (auto simp: colorstr_def list_all_iff)
    have "search P b (34 # v @ 34 # y') = search P (b @ [34]) ((v @ [34]) @ y')"
      using True by simp
    also have "\<dots> = search P ((b @ [34]) @ v @ [34]) y'"
      using nv by (intro search_skip[OF P]) auto
    finally have 1: "search P b (34 # v @ 34 # y') = search P (b @ 34 # v @ [34]) y'" by simp
    have "search P b (34 # h @ 34 # y') = search P (b @ [34]) ((h @ [34]) @ y')"
      using True by simp
    also have "\<dots> = search P ((b @ [34]) @ h @ [34]) y'"
      using nh by (intro search_skip[OF P]) auto
    finally have 2: "search P b (34 # h @ 34 # y') = search P (b @ 34 # h @ [34]) y'" by simp
    have "last_opt (b @ 34 # v @ [34]) = last_opt (b @ 34 # h @ [34])"
      by (simp add: last_opt_def)
    note sh = search_shift[OF this, of P y']
    show ?thesis
    proof (cases "search P (b @ 34 # v @ [34]) y'")
      case None
      then show ?thesis using sh unfolding 1 2 by (simp add: sims_def)
    next
      case (Some res)
      obtain a s r' where res: "res = (a, s, r')" by (cases res)
      from sh Some res obtain a0 where "a = (b @ 34 # v @ [34]) @ a0"
        "search P (b @ 34 # h @ [34]) y' = Some ((b @ 34 # h @ [34]) @ a0, s, r')" by blast
      then show ?thesis unfolding 1 2 Some res
        using sims_after[of v h "34 # y'" "b @ [34]" "34 # a0" s r'] by (simp del: search.simps)
    qed
  next
    case False
    with sim_cases[OF q] obtain ra where ra: "m P (last_opt b) (34 # v @ 34 # y') [] [] = Some ra" by auto
    from sim_sims[OF q ra, of "b @ [34]" b]
    show ?thesis using ra by (auto split: prod.splits)
  qed
  then show ?case by (simp del: search.simps)
next
  case (Cons c x)
  note q = Q[unfolded Q_def, rule_format, of "last_opt b" "c # x" "[]" "[]", simplified]
  show ?case
  proof (cases "m P (last_opt b) (c # x @ 34 # v @ 34 # y') [] [] = None \<and> m P (last_opt b) (c # x @ 34 # h @ 34 # y') [] [] = None")
    case True
    then show ?thesis using Cons[of "b @ [c]"] by simp
  next
    case False
    with sim_cases[OF q] obtain ra where ra: "m P (last_opt b) (c # x @ 34 # v @ 34 # y') [] [] = Some ra" by auto
    from sim_sims[OF q ra, of "b @ c # x @ [34]" b]
    show ?thesis using ra by (auto split: prod.splits)
  qed
qed

lemma rep_SomeD:
  "rep c lo hi k p r cur segs = Some res \<Longrightarrow>
   \<exists>w r'. r = w @ r' \<and> list_all (in_cls c) w \<and> lo \<le> length w \<and>
     (\<forall>n. hi = Some n \<longrightarrow> length w \<le> n) \<and>
     k (if w = [] then p else Some (last w)) r' (cur @ w) segs = Some res"
proof (induction c lo hi k p r cur segs rule: rep.induct)
  case (1 c lo hi k p cur segs)
  then show ?case by (auto split: if_splits)
next
  case (2 c lo hi k p x r cur segs)
  show ?case
  proof (cases "in_cls c x \<and> hi \<noteq> Some 0 \<and> rep c (lo - 1) (map_option (\<lambda>n. n - 1) hi) k (Some x) r (cur @ [x]) segs = Some res")
    case True
    with 2(1) obtain w r' where w: "r = w @ r'" "list_all (in_cls c) w" "lo - 1 \<le> length w"
      "\<forall>n. map_option (\<lambda>n. n - 1) hi = Some n \<longrightarrow> length w \<le> n"
      "k (if w = [] then Some x else Some (last w)) r' ((cur @ [x]) @ w) segs = Some res"
      by blast
    have "x # r = (x # w) @ r'" using w by simp
    moreover have "list_all (in_cls c) (x # w)" using w True by simp
    moreover have "lo \<le> length (x # w)" using w by simp
    moreover have "\<forall>n. hi = Some n \<longrightarrow> length (x # w) \<le> n" using w True by (cases hi) auto
    moreover have "k (if x # w = [] then p else Some (last (x # w))) r' (cur @ x # w) segs = Some res"
      using w by (auto split: if_splits)
    ultimately show ?thesis by blast
  next
    case False
    with 2(2) have "lo = 0" "k p (x # r) cur segs = Some res"
      by (auto split: if_splits option.splits)
    then show ?thesis by - (rule exI[of _ "[]"], rule exI[of _ "x # r"], auto)
  qed
qed

lemma m_nomark_SomeD:
  "Mark \<notin> set A \<Longrightarrow> m (A @ B) p r cur segs = Some res \<Longrightarrow>
   \<exists>u r' p'. r = u @ r' \<and> m B p' r' (cur @ u) segs = Some res"
proof (induction A arbitrary: p r cur)
  case Nil
  then show ?case by - (rule exI[of _ "[]"], rule exI[of _ r], rule exI[of _ p], simp)
next
  case (Cons x A)
  then have A: "Mark \<notin> set A" by simp
  show ?case
  proof (cases x)
    case (Lit c)
    with Cons.prems obtain r1 where r1: "r = c # r1" "m (A @ B) (Some c) r1 (cur @ [c]) segs = Some res"
      by (auto split: list.splits if_splits)
    from Cons.IH[OF A r1(2)] obtain u r' p' where "r1 = u @ r'" "m B p' r' ((cur @ [c]) @ u) segs = Some res"
      by blast
    then show ?thesis using r1 by - (rule exI[of _ "c # u"], rule exI[of _ r'], rule exI[of _ p'], simp)
  next
    case (Rep c lo hi)
    with Cons.prems have "rep c lo hi (m (A @ B)) p r cur segs = Some res" by simp
    from rep_SomeD[OF this] obtain w r1 where w: "r = w @ r1"
      "m (A @ B) (if w = [] then p else Some (last w)) r1 (cur @ w) segs = Some res" by blast
    from Cons.IH[OF A w(2)] obtain u r' p' where "r1 = u @ r'" "m B p' r' ((cur @ w) @ u) segs = Some res"
      by blast
    then show ?thesis using w by - (rule exI[of _ "w @ u"], rule exI[of _ r'], rule exI[of _ p'], simp)
  next
    case Bol
    with Cons.prems have "m (A @ B) p r cur segs = Some res" by (auto split: if_splits)
    from Cons.IH[OF A this] show ?thesis .
  next
    case Eol
    with Cons.prems have "m (A @ B) p r cur segs = Some res" by (auto split: if_splits list.splits)
    from Cons.IH[OF A this] show ?thesis .
  next
    case Mark
    with Cons.prems show ?thesis by simp
  qed
qed

lemma m_quoted_value_SomeD:
  assumes "m (Lit 34 # Mark # value_tail) p r cur segs = Some res"
  shows "\<exists>v w rest. r = 34 # v @ 34 # w @ rest \<and> colorstr v \<and>
           res = (segs @ [cur @ [34], v, 34 # w, []], rest)"
proof -
  from assms obtain r2 where r2: "r = 34 # r2"
    "rep color_class 1 None (step Mark (step (Lit 34) (m quote_tail))) (Some 34) r2 [] (segs @ [cur @ [34]]) = Some res"
    by (auto simp: value_tail_eq split: list.splits if_splits)
  from rep_SomeD[OF r2(2)] obtain v r3 where v: "r2 = v @ r3" "list_all (in_cls color_class) v" "1 \<le> length v"
    "step Mark (step (Lit 34) (m quote_tail)) (if v = [] then Some 34 else Some (last v)) r3 ([] @ v) (segs @ [cur @ [34]]) = Some res"
    by blast
  from v(4) obtain y' where y': "r3 = 34 # y'" "m quote_tail (Some 34) y' [34] (segs @ [cur @ [34], v]) = Some res"
    by (auto split: list.splits if_splits)
  from y'(2) obtain w rest where w: "trail y' = Some (w, rest)" "res = (segs @ [cur @ [34], v, 34 # w, []], rest)"
    by (auto simp: m_quote_tail)
  have "colorstr v" using v by (auto simp: colorstr_def)
  moreover have "r = 34 # v @ 34 # w @ rest" using r2 v y' trail_split[OF w(1)] by simp
  ultimately show ?thesis using w by blast
qed

lemma field_pattern_root: "field_pattern pattern_root"
  unfolding field_pattern_def
  by (rule exI[of _ "Rep space_class 0 None # lits ''color:'' @ [Rep space_class 0 None]"])
     (auto simp: pattern_root_def lits_def)

lemma field_pattern_android12: "field_pattern pattern_android12"
  unfolding field_pattern_def
  by (rule exI[of _ "Rep space_class 0 None # lits ''android_12:'' @
        [Rep space_class 0 None, Lit 10, Rep space_class 0 None] @ lits ''color:'' @ [Rep space_class 0 None]"])
     (auto simp: pattern_android12_def lits_def)

lemma field_shape:
  assumes "field_pattern P" "m P p r [] [] = Some res"
  shows "\<exists>g v w rest. r = g @ 34 # v @ 34 # w @ rest \<and> colorstr v \<and>
           res = ([[], g @ [34], v, 34 # w, []], rest)"
proof -
  from assms(1) obtain A where A: "P = Mark # Bol # A @ Lit 34 # Mark # value_tail" "Mark \<notin> set A"
    unfolding field_pattern_def by blast
  from assms(2) have "m (A @ Lit 34 # Mark # value_tail) p r [] [[]] = Some res"
    unfolding A by (auto split: if_splits)
  from m_nomark_SomeD[OF A(2) this] obtain u r' p' where u: "r = u @ r'"
    "m (Lit 34 # Mark # value_tail) p' r' ([] @ u) [[]] = Some res" by blast
  from m_quoted_value_SomeD[OF u(2)] obtain v w rest where
    "r' = 34 # v @ 34 # w @ rest" "colorstr v" "res = ([[]] @ [([] @ u) @ [34], v, 34 # w, []], rest)"
    by blast
  then show ?thesis using u by - (rule exI[of _ u], rule exI[of _ v], rule exI[of _ w], rule exI[of _ rest], simp)
qed

lemma search_SomeD:
  "search P b r = Some (a, segs, rest) \<Longrightarrow>
   \<exists>u r1. a = b @ u \<and> r = u @ r1 \<and> m P (last_opt a) r1 [] [] = Some (segs, rest) \<and>
     (\<forall>i<length u. m P (last_opt (b @ take i u)) (drop i r) [] [] = None)"
proof (induction r arbitrary: b)
  case Nil
  then show ?case by (auto split: option.splits)
next
  case (Cons x r)
  show ?case
  proof (cases "m P (last_opt b) (x # r) [] []")
    case None
    with Cons.prems have "search P (b @ [x]) r = Some (a, segs, rest)" by simp
    from Cons.IH[OF this] obtain u r1 where u: "a = (b @ [x]) @ u" "r = u @ r1"
      "m P (last_opt a) r1 [] [] = Some (segs, rest)"
      "\<forall>i<length u. m P (last_opt ((b @ [x]) @ take i u)) (drop i r) [] [] = None" by blast
    have "\<forall>i<length (x # u). m P (last_opt (b @ take i (x # u))) (drop i (x # r)) [] [] = None"
    proof (intro allI impI)
      fix i assume i: "i < length (x # u)"
      show "m P (last_opt (b @ take i (x # u))) (drop i (x # r)) [] [] = None"
      proof (cases i)
        case 0
        then show ?thesis using None by simp
      next
        case (Suc j)
        then show ?thesis using u(4)[rule_format, of j] i by simp
      qed
    qed
    then show ?thesis using u by - (rule exI[of _ "x # u"], rule exI[of _ r1], simp)
  next
    case (Some res)
    with Cons.prems show ?thesis by - (rule exI[of _ "[]"], rule exI[of _ "x # r"], (auto split: prod.splits))
  qed
qed

lemma located_shape:
  assumes "field_pattern P" "search P [] t = Some (a, segs, b)"
  shows "\<exists>g v w. segs = [[], g @ [34], v, 34 # w, []] \<and> colorstr v \<and> t = a @ g @ 34 # v @ 34 # w @ b"
proof -
  from search_SomeD[OF assms(2)] obtain r1 where r1: "t = a @ r1" "m P (last_opt a) r1 [] [] = Some (segs, b)"
    by auto
  from field_shape[OF assms(1) r1(2)] show ?thesis using r1(1) by auto
qed

lemma field_bol: "field_pattern P \<Longrightarrow> \<exists>ops. P = Mark # Bol # ops"
  by (auto simp: field_pattern_def)

lemma segs_eq: "S @ [x, y, z] = [s0, s1, x', y', z'] \<longleftrightarrow> S = [s0, s1] \<and> x = x' \<and> y = y' \<and> z = z'"
proof -
  have "S @ [x, y, z] = [s0, s1] @ [x', y', z'] \<longleftrightarrow> S = [s0, s1] \<and> [x, y, z] = [x', y', z']"
    by (rule append_eq_append_conv) simp
  then show ?thesis by simp
qed

lemma field_sims:
  assumes P: "field_pattern P" and QP: "Q v h (34 # y') (m P)"
    and v: "colorstr v" and h: "colorstr h"
  shows "sims v h (34 # y') (x @ [34]) (search P [] (x @ 34 # v @ 34 # y')) (search P [] (x @ 34 # h @ 34 # y'))"
proof -
  from field_bol[OF P] obtain ops where ops: "P = Mark # Bol # ops" by blast
  from search_sim[OF ops QP v h, where b="[]" and x=x] show ?thesis by simp
qed

lemma sims_Some_cases:
  assumes "sims v h y X (Some (a, segs, b)) res'"
  obtains (before) bb where "b = bb @ v @ y" "res' = Some (a, segs, bb @ h @ y)"
    | (on) S w where "segs = S @ [v, 34 # w, []]" "res' = Some (a, S @ [h, 34 # w, []], b)" "y = 34 # w @ b"
    | (after) a0 where "a = X @ v @ a0" "res' = Some (X @ h @ a0, segs, b)"
proof -
  from assms have
    "(\<exists>bb. b = bb @ v @ y \<and> res' = Some (a, segs, bb @ h @ y)) \<or>
     (\<exists>S w. segs = S @ [v, 34 # w, []] \<and> res' = Some (a, S @ [h, 34 # w, []], b) \<and> y = 34 # w @ b) \<or>
     (\<exists>a0. a = X @ v @ a0 \<and> res' = Some (X @ h @ a0, segs, b))"
    unfolding sims_def by (elim disjE exE conjE) simp_all
  then show thesis using before on after by blast
qed

lemma subst_own:
  assumes P: "field_pattern P" and QP: "\<And>v h y'. colorstr v \<Longrightarrow> colorstr h \<Longrightarrow> Q v h (34 # y') (m P)"
    and s: "search P [] (a @ g @ 34 # v @ 34 # w @ b) = Some (a, [[], g @ [34], v, 34 # w, []], b)"
    and v: "colorstr v" and h: "colorstr h"
  shows "search P [] (a @ g @ 34 # h @ 34 # w @ b) = Some (a, [[], g @ [34], h, 34 # w, []], b)"
proof -
  have vne: "v \<noteq> []" using v by (simp add: colorstr_def)
  from field_sims[OF P QP[OF v h] v h, where y'="w @ b" and x="a @ g"] s
  have "sims v h (34 # w @ b) (a @ g @ [34]) (Some (a, [[], g @ [34], v, 34 # w, []], b))
          (search P [] (a @ g @ 34 # h @ 34 # w @ b))" by simp
  then show ?thesis
  proof (cases rule: sims_Some_cases)
    case (before bb)
    from before(1) have "length b = length (bb @ v @ 34 # w @ b)" by (rule arg_cong)
    then show ?thesis using vne by simp
  next
    case (on S w2)
    from on(1) have "S = [[], g @ [34]]" "w2 = w" using segs_eq[of S v "34 # w2" "[]" "[]" "g @ [34]" v "34 # w" "[]"] by auto
    then show ?thesis using on(2) by simp
  next
    case (after a0)
    from after(1) have "length a = length ((a @ g @ [34]) @ v @ a0)" by (rule arg_cong)
    then show ?thesis by simp
  qed
qed

lemma subst_other:
  assumes P: "field_pattern P" and QP: "\<And>v h y'. colorstr v \<Longrightarrow> colorstr h \<Longrightarrow> Q v h (34 # y') (m P)"
    and v: "colorstr v" and h: "colorstr h"
  shows "(search P [] (x @ 34 # v @ 34 # y') = None \<longleftrightarrow> search P [] (x @ 34 # h @ 34 # y') = None) \<and>
     (\<forall>a g1 g2 b. search P [] (x @ 34 # v @ 34 # y') = Some (a, [[], g1, h, g2, []], b) \<longrightarrow>
        (\<exists>a2 b2. search P [] (x @ 34 # h @ 34 # y') = Some (a2, [[], g1, h, g2, []], b2)))"
proof -
  note s = field_sims[OF P QP[OF v h] v h, where y'=y' and x=x]
  have 1: "search P [] (x @ 34 # v @ 34 # y') = None \<longleftrightarrow> search P [] (x @ 34 # h @ 34 # y') = None"
    using s unfolding sims_def by (elim disjE exE conjE) simp_all
  have 2: "\<exists>a2 b2. search P [] (x @ 34 # h @ 34 # y') = Some (a2, [[], g1, h, g2, []], b2)"
    if *: "search P [] (x @ 34 # v @ 34 # y') = Some (a, [[], g1, h, g2, []], b)" for a g1 g2 b
    using s[unfolded *]
  proof (cases rule: sims_Some_cases)
    case (before bb)
    then show ?thesis by simp
  next
    case (on S w2)
    from on(1) have "S = [[], g1]" "v = h" "34 # w2 = g2" using segs_eq[of S v "34 # w2" "[]" "[]" g1 h g2 "[]"] by auto
    then show ?thesis using on(2) by simp
  next
    case (after a0)
    then show ?thesis by simp
  qed
  show ?thesis using 1 2 by blast
qed

lemma m_concat:
  "m ops p r cur segs = Some (segs', rest) \<Longrightarrow> concat segs' @ rest = concat segs @ cur @ r"
proof (induction ops arbitrary: p r cur segs)
  case Nil
  then show ?case by (auto simp: finish_def)
next
  case (Cons x ops)
  show ?case
  proof (cases x)
    case (Lit c)
    with Cons.prems obtain r1 where r1: "r = c # r1" "m ops (Some c) r1 (cur @ [c]) segs = Some (segs', rest)"
      by (auto split: list.splits if_splits)
    from Cons.IH[OF r1(2)] r1(1) show ?thesis by simp
  next
    case (Rep c lo hi)
    with Cons.prems have "rep c lo hi (m ops) p r cur segs = Some (segs', rest)" by simp
    from rep_SomeD[OF this] obtain w r1 where w: "r = w @ r1"
      "m ops (if w = [] then p else Some (last w)) r1 (cur @ w) segs = Some (segs', rest)" by blast
    from Cons.IH[OF w(2)] w(1) show ?thesis by simp
  next
    case Bol
    with Cons.prems have "m ops p r cur segs = Some (segs', rest)" by (auto split: if_splits)
    from Cons.IH[OF this] show ?thesis .
  next
    case Eol
    with Cons.prems have "m ops p r cur segs = Some (segs', rest)" by (auto split: if_splits list.splits)
    from Cons.IH[OF this] show ?thesis .
  next
    case Mark
    with Cons.prems have "m ops p r [] (segs @ [cur]) = Some (segs', rest)" by simp
    from Cons.IH[OF this] show ?thesis by simp
  qed
qed

lemma search_skip_failed:
  "(\<forall>i<length u. m P (last_opt (b @ take i u)) (drop i u @ r) [] [] = None) \<Longrightarrow>
   search P b (u @ r) = search P (b @ u) r"
proof (induction u arbitrary: b)
  case Nil
  then show ?case by simp
next
  case (Cons x u)
  from Cons.prems[rule_format, of 0] have 0: "m P (last_opt b) (x # u @ r) [] [] = None" by simp
  have "\<forall>i<length u. m P (last_opt ((b @ [x]) @ take i u)) (drop i u @ r) [] [] = None"
  proof (intro allI impI)
    fix i assume "i < length u"
    then show "m P (last_opt ((b @ [x]) @ take i u)) (drop i u @ r) [] [] = None"
      using Cons.prems[rule_format, of "Suc i"] by simp
  qed
  from Cons.IH[OF this] 0 show ?case by simp
qed

lemma search_here: "m P (last_opt b) r [] [] = Some (segs, rest) \<Longrightarrow> search P b r = Some (b, segs, rest)"
  by (cases r) simp_all

lemma search_first_matchD:
  assumes s: "search P [] t = Some (a, segs, b)"
  shows "first_match P t a segs b"
proof -
  from search_SomeD[OF s] obtain u r1 where u: "a = [] @ u" "t = u @ r1"
    "m P (last_opt a) r1 [] [] = Some (segs, b)"
    "\<forall>i<length u. m P (last_opt ([] @ take i u)) (drop i t) [] [] = None" by blast
  have ua: "u = a" using u(1) by simp
  from m_concat[OF u(3)] have c: "r1 = concat segs @ b" by simp
  have t: "t = a @ concat segs @ b" using u(2) ua c by simp
  have "\<forall>i<length a. m P (last_opt (take i t)) (drop i t) [] [] = None"
  proof (intro allI impI)
    fix i assume i: "i < length a"
    have "take i t = take i a" using i unfolding t by simp
    then show "m P (last_opt (take i t)) (drop i t) [] [] = None"
      using u(4)[rule_format, of i] i ua by simp
  qed
  moreover have "m P (last_opt a) (concat segs @ b) [] [] = Some (segs, b)"
    using u(3) c by simp
  ultimately show ?thesis using t unfolding first_match_def by blast
qed

lemma search_leftmost:
  assumes mm: "m P (last_opt a) r [] [] = Some (segs, b)"
    and n: "\<forall>i<length a. m P (last_opt (take i a)) (drop i a @ r) [] [] = None"
  shows "search P [] (a @ r) = Some (a, segs, b)"
proof -
  have "\<forall>i<length a. m P (last_opt ([] @ take i a)) (drop i a @ r) [] [] = None"
    using n by simp
  from search_skip_failed[OF this] have "search P [] (a @ r) = search P ([] @ a) r" .
  then show ?thesis using search_here[OF mm] by simp
qed

lemma search_first_matchI:
  assumes f: "first_match P t a segs b"
  shows "search P [] t = Some (a, segs, b)"
proof -
  from f[unfolded first_match_def] have t: "t = a @ concat segs @ b" by (rule conjunct1)
  from f[unfolded first_match_def] have mm: "m P (last_opt a) (concat segs @ b) [] [] = Some (segs, b)"
    by (rule conjunct1[OF conjunct2])
  from f[unfolded first_match_def]
  have n: "\<forall>i<length a. m P (last_opt (take i t)) (drop i t) [] [] = None"
    by (rule conjunct2[OF conjunct2])
  have "\<forall>i<length a. m P (last_opt (take i a)) (drop i a @ concat segs @ b) [] [] = None"
  proof (intro allI impI)
    fix i assume i: "i < length a"
    have 1: "take i (a @ concat segs @ b) = take i a" using i by simp
    have 2: "drop i (a @ concat segs @ b) = drop i a @ concat segs @ b" using i by simp
    from n[rule_format, OF i] have "m P (last_opt (take i (a @ concat segs @ b))) (drop i (a @ concat segs @ b)) [] [] = None"
      by (simp only: t)
    then show "m P (last_opt (take i a)) (drop i a @ concat segs @ b) [] [] = None"
      by (simp only: 1 2)
  qed
  from search_leftmost[OF mm this] show ?thesis by (simp only: t)
qed

lemma search_first_match: "search P [] t = Some (a, segs, b) \<longleftrightarrow> first_match P t a segs b"
  using search_first_matchD search_first_matchI by blast

lemma hex_color_colorstr: "hex_color_string h \<Longrightarrow> colorstr h"
  by (auto simp: hex_color_string_def colorstr_def upper_hex_class_def color_class_def list_all_iff
      split: list.splits)

lemma template_field [simp]: "template h [s0, g1, v, g2, s4] = g1 @ h @ g2"
  by (simp add: template_def group_def)

lemma subn1_None: "search P [] t = None \<Longrightarrow> subn1 P f t = (t, 0)"
  by (simp add: subn1_def)

lemma subn1_Some: "search P [] t = Some (a, segs, b) \<Longrightarrow> subn1 P f t = (a @ f segs @ b, 1)"
  by (simp add: subn1_def)

lemma update_fail_root:
  "search pattern_root [] (pubspec fs) = None \<Longrightarrow> update_pubspec h fs = (Inl (SystemExit missing_fields_message), fs)"
  by (simp add: update_pubspec_def subn1_None Let_def split: prod.splits)

lemma update_root:
  assumes "search pattern_root [] (pubspec fs) = Some (a, [[], g1, v, g2, []], b)"
  shows "update_pubspec h fs =
     (case search pattern_android12 [] (a @ g1 @ h @ g2 @ b) of
        None \<Rightarrow> (Inl (SystemExit missing_fields_message), fs)
      | Some (a', segs', b') \<Rightarrow>
          if a' @ template h segs' @ b' \<noteq> pubspec fs
          then (Inr True, fs\<lparr>pubspec := a' @ template h segs' @ b'\<rparr>) else (Inr False, fs))"
  using assms
  by (simp add: update_pubspec_def subn1_def Let_def split: prod.splits option.splits)

lemma update_cases:
  obtains (no_root) "search pattern_root [] (pubspec fs) = None"
      "update_pubspec h fs = (Inl (SystemExit missing_fields_message), fs)"
  | (no_a12) a g v w b where "search pattern_root [] (pubspec fs) = Some (a, [[], g @ [34], v, 34 # w, []], b)"
      "pubspec fs = a @ g @ 34 # v @ 34 # w @ b" "colorstr v"
      "search pattern_android12 [] (a @ g @ 34 # h @ 34 # w @ b) = None"
      "update_pubspec h fs = (Inl (SystemExit missing_fields_message), fs)"
  | (ok) a g v w b a' g' v' w' b' where
      "search pattern_root [] (pubspec fs) = Some (a, [[], g @ [34], v, 34 # w, []], b)"
      "pubspec fs = a @ g @ 34 # v @ 34 # w @ b" "colorstr v"
      "search pattern_android12 [] (a @ g @ 34 # h @ 34 # w @ b) = Some (a', [[], g' @ [34], v', 34 # w', []], b')"
      "a @ g @ 34 # h @ 34 # w @ b = a' @ g' @ 34 # v' @ 34 # w' @ b'" "colorstr v'"
      "update_pubspec h fs = (Inr (a' @ g' @ 34 # h @ 34 # w' @ b' \<noteq> pubspec fs),
          fs\<lparr>pubspec := a' @ g' @ 34 # h @ 34 # w' @ b'\<rparr>)"
proof (cases "search pattern_root [] (pubspec fs)")
  case None
  then show ?thesis using no_root update_fail_root by blast
next
  case (Some res)
  obtain a segs b where res: "res = (a, segs, b)" by (cases res)
  from located_shape[OF field_pattern_root Some[unfolded res]] obtain g v w where
    s: "segs = [[], g @ [34], v, 34 # w, []]" "colorstr v" "pubspec fs = a @ g @ 34 # v @ 34 # w @ b"
    by blast
  note r = Some[unfolded res s(1)]
  note u = update_root[OF r, of h, simplified]
  show ?thesis
  proof (cases "search pattern_android12 [] (a @ g @ 34 # h @ 34 # w @ b)")
    case None
    then show ?thesis using no_a12[OF r s(3) s(2)] u by simp
  next
    case (Some res')
    obtain a' segs' b' where res': "res' = (a', segs', b')" by (cases res')
    from located_shape[OF field_pattern_android12 Some[unfolded res']] obtain g' v' w' where
      s': "segs' = [[], g' @ [34], v', 34 # w', []]" "colorstr v'"
        "a @ g @ 34 # h @ 34 # w @ b = a' @ g' @ 34 # v' @ 34 # w' @ b'"
      by blast
    note r' = Some[unfolded res' s'(1)]
    have "update_pubspec h fs = (Inr (a' @ g' @ 34 # h @ 34 # w' @ b' \<noteq> pubspec fs),
          fs\<lparr>pubspec := a' @ g' @ 34 # h @ 34 # w' @ b'\<rparr>)"
      using u r' by (cases "a' @ g' @ 34 # h @ 34 # w' @ b' = pubspec fs") simp_all
    then show ?thesis using ok[OF r s(3) s(2) r' s'(3) s'(2)] by blast
  qed
qed

lemma Q_field:
  assumes "P = pattern_root \<or> P = pattern_android12" "colorstr v" "colorstr h"
  shows "Q v h (34 # y') (m P)"
  using assms Q_root Q_android12 by blast

lemma field_pattern_both: "P = pattern_root \<or> P = pattern_android12 \<Longrightarrow> field_pattern P"
  using field_pattern_root field_pattern_android12 by blast

lemma own:
  assumes P: "P = pattern_root \<or> P = pattern_android12"
    and s: "search P [] (a @ g @ 34 # v @ 34 # w @ b) = Some (a, [[], g @ [34], v, 34 # w, []], b)"
    and v: "colorstr v" and h: "colorstr h"
  shows "search P [] (a @ g @ 34 # h @ 34 # w @ b) = Some (a, [[], g @ [34], h, 34 # w, []], b)"
  by (rule subst_own[OF field_pattern_both[OF P] Q_field[OF P] s v h])

lemma other:
  assumes P: "P = pattern_root \<or> P = pattern_android12"
    and v: "colorstr v" and h: "colorstr h"
  shows "(search P [] (x @ 34 # v @ 34 # y') = None \<longleftrightarrow> search P [] (x @ 34 # h @ 34 # y') = None)"
    and "search P [] (x @ 34 # v @ 34 # y') = Some (a, [[], g1, h, g2, []], b) \<Longrightarrow>
        \<exists>a2 b2. search P [] (x @ 34 # h @ 34 # y') = Some (a2, [[], g1, h, g2, []], b2)"
  using subst_other[OF field_pattern_both[OF P] Q_field[OF P] v h, of x y'] by blast+

lemma search_text:
  assumes "search P [] t = Some (a, [s0, g1, v, g2, s4], b)"
  shows "t = a @ s0 @ g1 @ v @ g2 @ s4 @ b"
  using assms[unfolded search_first_match first_match_def] by simp

lemma is_root: "pattern_root = pattern_root \<or> pattern_root = pattern_android12"
  by simp

lemma is_a12: "pattern_android12 = pattern_root \<or> pattern_android12 = pattern_android12"
  by simp

lemma update_ok_final:
  assumes h: "hex_color_string h"
    and r: "search pattern_root [] (pubspec fs) = Some (a, [[], g @ [34], v, 34 # w, []], b)"
    and t: "pubspec fs = a @ g @ 34 # v @ 34 # w @ b" and v: "colorstr v"
    and r': "search pattern_android12 [] (a @ g @ 34 # h @ 34 # w @ b) = Some (a', [[], g' @ [34], v', 34 # w', []], b')"
    and t': "a @ g @ 34 # h @ 34 # w @ b = a' @ g' @ 34 # v' @ 34 # w' @ b'" and v': "colorstr v'"
  shows "search pattern_android12 [] (a' @ g' @ 34 # h @ 34 # w' @ b') = Some (a', [[], g' @ [34], h, 34 # w', []], b')"
    and "\<exists>a2 b2. search pattern_root [] (a' @ g' @ 34 # h @ 34 # w' @ b') = Some (a2, [[], g @ [34], h, 34 # w, []], b2)"
proof -
  note hc = hex_color_colorstr[OF h]
  show "search pattern_android12 [] (a' @ g' @ 34 # h @ 34 # w' @ b') = Some (a', [[], g' @ [34], h, 34 # w', []], b')"
    using own[OF is_a12 _ v' hc, where a=a' and g=g' and w=w' and b=b'] r' t' by simp
  have "search pattern_root [] (a @ g @ 34 # h @ 34 # w @ b) = Some (a, [[], g @ [34], h, 34 # w, []], b)"
    using own[OF is_root _ v hc, where a=a and g=g and w=w and b=b] r t by simp
  then have "search pattern_root [] ((a' @ g') @ 34 # v' @ 34 # w' @ b') = Some (a, [[], g @ [34], h, 34 # w, []], b)"
    using t' by simp
  from other(2)[OF is_root v' hc this]
  show "\<exists>a2 b2. search pattern_root [] (a' @ g' @ 34 # h @ 34 # w' @ b') = Some (a2, [[], g @ [34], h, 34 # w, []], b2)"
    by simp
qed

lemma update_in_sync:
  assumes r: "search pattern_root [] (pubspec fs) = Some (a, [[], g1, h, g2, []], b)"
    and r': "search pattern_android12 [] (pubspec fs) = Some (a', [[], k1, h, k2, []], b')"
  shows "update_pubspec h fs = (Inr False, fs)"
proof -
  have t: "a @ g1 @ h @ g2 @ b = pubspec fs" using search_text[OF r] by simp
  have t': "a' @ k1 @ h @ k2 @ b' = pubspec fs" using search_text[OF r'] by simp
  show ?thesis unfolding update_root[OF r] t r' using t' by simp
qed

lemma update_twice:
  assumes h: "hex_color_string h"
  shows "\<forall>changed fs'. update_pubspec h fs = (Inr changed, fs') \<longrightarrow>
            update_pubspec h fs' = (Inr False, fs')"
proof (intro allI impI)
  fix changed fs' assume u: "update_pubspec h fs = (Inr changed, fs')"
  show "update_pubspec h fs' = (Inr False, fs')"
  proof (cases h fs rule: update_cases)
    case no_root
    then show ?thesis using u by simp
  next
    case (no_a12 a g v w b)
    then show ?thesis using u by simp
  next
    case (ok a g v w b a' g' v' w' b')
    from ok(7) u have fs': "pubspec fs' = a' @ g' @ 34 # h @ 34 # w' @ b'" by auto
    from update_ok_final[OF h ok(1,2,3,4,5,6)] obtain a2 b2 where
      1: "search pattern_android12 [] (pubspec fs') = Some (a', [[], g' @ [34], h, 34 # w', []], b')"
      and 2: "search pattern_root [] (pubspec fs') = Some (a2, [[], g @ [34], h, 34 # w, []], b2)"
      unfolding fs' by blast
    from update_in_sync[OF 2 1] show ?thesis .
  qed
qed


lemma field_value_shape:
  assumes "P = pattern_root \<or> P = pattern_android12" "search P [] t = Some (a, segs, b)"
  shows "\<exists>g1 v g2. segs = [[], g1, v, g2, []] \<and> v \<noteq> [] \<and> list_all (in_cls color_class) v"
  using located_shape[OF field_pattern_both[OF assms(1)] assms(2)] by (auto simp: colorstr_def)

lemma m_lits_eq:
  "m (map Lit w @ ops) p (w @ r) cur segs =
   m ops (if w = [] then p else Some (last w)) r (cur @ w) segs"
  by (induction w arbitrary: p cur) auto

lemma m_lits_SomeD:
  "m (map Lit w @ ops) p r cur segs = Some res \<Longrightarrow>
   \<exists>r'. r = w @ r' \<and> m ops (if w = [] then p else Some (last w)) r' (cur @ w) segs = Some res"
proof (induction w arbitrary: p r cur)
  case Nil
  then show ?case by simp
next
  case (Cons c w)
  from Cons.prems obtain r1 where r1: "r = c # r1"
    "m (map Lit w @ ops) (Some c) r1 (cur @ [c]) segs = Some res"
    by (auto split: list.splits if_splits)
  from Cons.IH[OF r1(2)] obtain r' where "r1 = w @ r'"
    "m ops (if w = [] then Some c else Some (last w)) r' ((cur @ [c]) @ w) segs = Some res" by blast
  then show ?case using r1(1) by - (rule exI[of _ r'], auto)
qed

lemma rep_greedy:
  "list_all (in_cls c) ws \<Longrightarrow> r = [] \<or> \<not> in_cls c (hd r) \<Longrightarrow>
   k (if ws = [] then p else Some (last ws)) r (cur @ ws) segs = Some res \<Longrightarrow>
   lo \<le> length ws \<Longrightarrow> rep c lo None k p (ws @ r) cur segs = Some res"
proof (induction ws arbitrary: lo p cur)
  case Nil
  then show ?case by (cases r) auto
next
  case (Cons x ws)
  have "rep c (lo - 1) None k (Some x) (ws @ r) (cur @ [x]) segs = Some res"
    using Cons.prems by (intro Cons.IH) (auto split: if_splits)
  then show ?case using Cons.prems(1) by simp
qed

lemma rep_exact:
  "list_all (in_cls c) w \<Longrightarrow> length w = n \<Longrightarrow>
   k (if w = [] then p else Some (last w)) r (cur @ w) segs = Some res \<Longrightarrow>
   rep c n (Some n) k p (w @ r) cur segs = Some res"
proof (induction w arbitrary: n p cur)
  case Nil
  then show ?case by (cases r) auto
next
  case (Cons x w)
  then obtain n' where n: "n = Suc n'" "length w = n'" by (cases n) auto
  have "rep c n' (Some n') k (Some x) (w @ r) (cur @ [x]) segs = Some res"
    using Cons.prems n by (intro Cons.IH) (auto split: if_splits)
  then show ?case using Cons.prems(1) n by simp
qed

lemma theme_eq:
  "pattern_theme = map Lit ident @ Rep space_class 0 None # map Lit [61] @
     Rep space_class 0 None # map Lit (str ''0xFF'') @ [Mark, Rep hex_class 6 (Some 6), Mark]"
  by (simp add: pattern_theme_def lits_def ident_def str_def)

lemma not_space_61: "\<not> in_cls space_class 61" and not_space_48: "\<not> in_cls space_class 48"
  by (simp_all add: space_class_def)

lemma theme_complete:
  assumes w1: "list_all (in_cls space_class) ws1" and w2: "list_all (in_cls space_class) ws2"
    and D: "list_all (in_cls hex_class) D" "length D = 6"
  shows "m pattern_theme p (ident @ ws1 @ 61 # ws2 @ str ''0xFF'' @ D @ rest) [] [] =
         Some ([ident @ ws1 @ 61 # ws2 @ str ''0xFF'', D, []], rest)"
proof -
  define T5 where "T5 = [Mark, Rep hex_class 6 (Some 6), Mark]"
  define T4 where "T4 = map Lit (str ''0xFF'') @ T5"
  define T2 where "T2 = map Lit [61] @ Rep space_class 0 None # T4"
  have 5: "m T5 q (D @ rest) cur segs = Some (segs @ [cur, D, []], rest)" for q cur segs
    using rep_exact[OF D, of "step Mark finish" q rest "[]" "segs @ [cur]"]
    by (simp add: finish_def T5_def)
  have 4: "m T4 q (str ''0xFF'' @ D @ rest) cur segs = Some (segs @ [cur @ str ''0xFF'', D, []], rest)"
    for q cur segs
    unfolding T4_def m_lits_eq 5 by simp
  have n48: "str ''0xFF'' @ D @ rest = [] \<or> \<not> in_cls space_class (hd (str ''0xFF'' @ D @ rest))"
    by (simp add: str_def space_class_def)
  have 3: "rep space_class 0 None (m T4) q (ws2 @ str ''0xFF'' @ D @ rest) cur segs =
           Some (segs @ [cur @ ws2 @ str ''0xFF'', D, []], rest)" for q cur segs
    by (rule rep_greedy[OF w2 n48]) (simp_all add: 4)
  have 2: "m T2 q (61 # ws2 @ str ''0xFF'' @ D @ rest) cur segs =
           Some (segs @ [cur @ 61 # ws2 @ str ''0xFF'', D, []], rest)" for q cur segs
    by (simp add: T2_def 3)
  have n61: "61 # ws2 @ str ''0xFF'' @ D @ rest = [] \<or>
             \<not> in_cls space_class (hd (61 # ws2 @ str ''0xFF'' @ D @ rest))"
    by (simp add: space_class_def)
  have 1: "rep space_class 0 None (m T2) q (ws1 @ 61 # ws2 @ str ''0xFF'' @ D @ rest) cur segs =
           Some (segs @ [cur @ ws1 @ 61 # ws2 @ str ''0xFF'', D, []], rest)" for q cur segs
    by (rule rep_greedy[OF w1 n61]) (simp_all add: 2)
  have e: "pattern_theme = map Lit ident @ Rep space_class 0 None # T2"
    by (simp add: theme_eq T2_def T4_def T5_def)
  have "m pattern_theme p (ident @ ws1 @ 61 # ws2 @ str ''0xFF'' @ D @ rest) [] [] =
         Some ([] @ [[] @ ident @ ws1 @ 61 # ws2 @ str ''0xFF'', D, []], rest)"
    unfolding e m_lits_eq by (simp add: 1)
  then show ?thesis by simp
qed

lemma theme_shape:
  assumes "m pattern_theme p r [] [] = Some (segs, rest)"
  shows "\<exists>ws1 ws2 D. list_all (in_cls space_class) ws1 \<and> list_all (in_cls space_class) ws2 \<and>
           list_all (in_cls hex_class) D \<and> length D = 6 \<and>
           r = ident @ ws1 @ 61 # ws2 @ str ''0xFF'' @ D @ rest \<and>
           segs = [ident @ ws1 @ 61 # ws2 @ str ''0xFF'', D, []]"
proof -
  from m_lits_SomeD[OF assms[unfolded theme_eq]] obtain r1 where r1: "r = ident @ r1"
    "rep space_class 0 None (m (map Lit [61] @ Rep space_class 0 None # map Lit (str ''0xFF'') @
        [Mark, Rep hex_class 6 (Some 6), Mark])) (if ident = [] then p else Some (last ident))
        r1 ([] @ ident) [] = Some (segs, rest)"
    by auto
  from rep_SomeD[OF r1(2)] obtain ws1 r2 where ws1: "r1 = ws1 @ r2" "list_all (in_cls space_class) ws1"
    and k2: "m (map Lit [61] @ Rep space_class 0 None # map Lit (str ''0xFF'') @
        [Mark, Rep hex_class 6 (Some 6), Mark])
        (if ws1 = [] then if ident = [] then p else Some (last ident) else Some (last ws1))
        r2 (([] @ ident) @ ws1) [] = Some (segs, rest)"
    by blast
  from m_lits_SomeD[OF k2] obtain r3 where r3: "r2 = [61] @ r3"
    "rep space_class 0 None (m (map Lit (str ''0xFF'') @ [Mark, Rep hex_class 6 (Some 6), Mark]))
       (Some 61) r3 ((([] @ ident) @ ws1) @ [61]) [] = Some (segs, rest)"
    by auto
  from rep_SomeD[OF r3(2)] obtain ws2 r4 where ws2: "r3 = ws2 @ r4" "list_all (in_cls space_class) ws2"
    and k4: "m (map Lit (str ''0xFF'') @ [Mark, Rep hex_class 6 (Some 6), Mark])
        (if ws2 = [] then Some 61 else Some (last ws2))
        r4 (((([] @ ident) @ ws1) @ [61]) @ ws2) [] = Some (segs, rest)"
    by blast
  from m_lits_SomeD[OF k4] obtain r5 where r5: "r4 = str ''0xFF'' @ r5"
    "rep hex_class 6 (Some 6) (step Mark finish) (Some 70)
       r5 [] [(((([] @ ident) @ ws1) @ [61]) @ ws2) @ str ''0xFF''] = Some (segs, rest)"
    by (auto simp: str_def)
  from rep_SomeD[OF r5(2)] obtain D r6 where D: "r5 = D @ r6" "list_all (in_cls hex_class) D"
    "6 \<le> length D" "length D \<le> 6"
    and k6: "step Mark finish (if D = [] then Some 70 else Some (last D)) r6 ([] @ D)
       [(((([] @ ident) @ ws1) @ [61]) @ ws2) @ str ''0xFF''] = Some (segs, rest)"
    by blast
  from k6 have "segs = [ident @ ws1 @ 61 # ws2 @ str ''0xFF'', D, []]" "r6 = rest"
    by (simp_all add: finish_def)
  moreover have "r = ident @ ws1 @ 61 # ws2 @ str ''0xFF'' @ D @ r6"
    using r1(1) ws1(1) r3(1) ws2(1) r5(1) D(1) by simp
  ultimately show ?thesis using ws1(2) ws2(2) D(2,3,4)
    by - (rule exI[of _ ws1], rule exI[of _ ws2], rule exI[of _ D], simp)
qed

lemma barrier_finish: "barrier finish"
  by (simp add: barrier_def finish_def)

lemma barrier_Mark: "barrier k \<Longrightarrow> barrier (step Mark k)"
  by (simp add: barrier_def)

lemma barrier_Lit: "barrier k \<Longrightarrow> c \<noteq> 116 \<Longrightarrow> barrier (step (Lit c) k)"
  unfolding barrier_def
proof (intro allI)
  fix x :: pystr and p :: "nat option" and cur :: pystr and segs :: "pystr list" and z z' :: pystr
  assume k: "\<forall>x p cur segs z z'. (k p (x @ 116 # z) cur segs = None) = (k p (x @ 116 # z') cur segs = None)"
    and c: "c \<noteq> 116"
  show "(step (Lit c) k p (x @ 116 # z) cur segs = None) = (step (Lit c) k p (x @ 116 # z') cur segs = None)"
  proof (cases x)
    case Nil
    then show ?thesis using c by simp
  next
    case (Cons a x')
    then show ?thesis using k[rule_format, of "Some a" x' z "cur @ [a]" segs z']
      by (cases "a = c") simp_all
  qed
qed

lemma barrier_rep:
  assumes k: "barrier k" and c: "\<not> in_cls c 116"
  shows "(rep c lo hi k p (x @ 116 # z) cur segs = None) = (rep c lo hi k p (x @ 116 # z') cur segs = None)"
proof (induction x arbitrary: lo hi p cur)
  case Nil
  then show ?case using k[unfolded barrier_def, rule_format, of p "[]" z cur segs z'] c
    by (cases "lo = 0") simp_all
next
  case (Cons a x)
  note K = k[unfolded barrier_def, rule_format, of p "a # x" z cur segs z']
  show ?case
  proof (cases "in_cls c a \<and> hi \<noteq> Some 0")
    case True
    note IH = Cons[of "lo - 1" "map_option (\<lambda>n. n - 1) hi" "Some a" "cur @ [a]"]
    show ?thesis
    proof (cases "rep c (lo - 1) (map_option (\<lambda>n. n - 1) hi) k (Some a) (x @ 116 # z) (cur @ [a]) segs")
      case None
      then have "rep c (lo - 1) (map_option (\<lambda>n. n - 1) hi) k (Some a) (x @ 116 # z') (cur @ [a]) segs = None"
        using IH by simp
      then show ?thesis using None True K by (cases "lo = 0") simp_all
    next
      case (Some r1)
      then obtain r2 where "rep c (lo - 1) (map_option (\<lambda>n. n - 1) hi) k (Some a) (x @ 116 # z') (cur @ [a]) segs = Some r2"
        using IH by (cases "rep c (lo - 1) (map_option (\<lambda>n. n - 1) hi) k (Some a) (x @ 116 # z') (cur @ [a]) segs") auto
      then show ?thesis using Some True by simp
    qed
  next
    case False
    then show ?thesis using K by (cases "lo = 0") auto
  qed
qed

lemma barrier_Rep: "barrier k \<Longrightarrow> \<not> in_cls c 116 \<Longrightarrow> barrier (step (Rep c lo hi) k)"
  using barrier_rep by (simp add: barrier_def)

lemma barrier_lits: "barrier (m ops) \<Longrightarrow> 116 \<notin> set w \<Longrightarrow> barrier (m (map Lit w @ ops))"
  by (induction w) (auto intro: barrier_Lit)

lemma theme_tail_barrier:
  "barrier (m (map Lit (tl ident) @ Rep space_class 0 None # map Lit [61] @
     Rep space_class 0 None # map Lit (str ''0xFF'') @ [Mark, Rep hex_class 6 (Some 6), Mark]))"
proof -
  have 5: "barrier (m [Mark, Rep hex_class 6 (Some 6), Mark])"
    by (simp add: barrier_finish barrier_Mark barrier_Rep hex_class_def)
  have 4: "barrier (m (map Lit (str ''0xFF'') @ [Mark, Rep hex_class 6 (Some 6), Mark]))"
    by (rule barrier_lits[OF 5]) (simp add: str_def)
  have 3: "barrier (m (Rep space_class 0 None # map Lit (str ''0xFF'') @ [Mark, Rep hex_class 6 (Some 6), Mark]))"
    using barrier_Rep[OF 4, of space_class 0 None] by (simp add: space_class_def)
  have 2: "barrier (m (map Lit [61] @ Rep space_class 0 None # map Lit (str ''0xFF'') @
                    [Mark, Rep hex_class 6 (Some 6), Mark]))"
    by (rule barrier_lits[OF 3]) simp
  have 1: "barrier (m (Rep space_class 0 None # map Lit [61] @ Rep space_class 0 None #
                    map Lit (str ''0xFF'') @ [Mark, Rep hex_class 6 (Some 6), Mark]))"
    using barrier_Rep[OF 2, of space_class 0 None] by (simp add: space_class_def)
  show ?thesis
    by (rule barrier_lits[OF 1]) (simp add: ident_def str_def)
qed

lemma ident_Cons: "ident = 116 # tl ident"
  by (simp add: ident_def str_def)

lemma theme_barrier:
  assumes "x \<noteq> []"
  shows "(m pattern_theme p (x @ ident @ z) [] [] = None) = (m pattern_theme p (x @ ident @ z') [] [] = None)"
proof -
  obtain a x' where x: "x = a # x'" using assms by (cases x) auto
  let ?T = "map Lit (tl ident) @ Rep space_class 0 None # map Lit [61] @
     Rep space_class 0 None # map Lit (str ''0xFF'') @ [Mark, Rep hex_class 6 (Some 6), Mark]"
  have e: "pattern_theme = Lit 116 # ?T"
    unfolding theme_eq by (subst ident_Cons) simp
  have "(m ?T (Some 116) (x' @ 116 # tl ident @ z) [116] [] = None) =
        (m ?T (Some 116) (x' @ 116 # tl ident @ z') [116] [] = None)"
    using theme_tail_barrier[unfolded barrier_def, rule_format] by blast
  then have "(m pattern_theme p (x @ (116 # tl ident) @ z) [] [] = None) =
        (m pattern_theme p (x @ (116 # tl ident) @ z') [] [] = None)"
    unfolding e x by (cases "a = 116") simp_all
  then show ?thesis using ident_Cons by simp
qed

lemma search_found:
  "m P (last_opt (b @ u)) r [] [] = Some res \<Longrightarrow> search P b (u @ r) \<noteq> None"
proof (induction u arbitrary: b)
  case Nil
  then show ?case by (cases r) (auto split: prod.splits)
next
  case (Cons x u)
  from Cons.IH[of "b @ [x]"] Cons.prems have "search P (b @ [x]) (u @ r) \<noteq> None" by simp
  then show ?case by (auto split: option.splits)
qed

lemma update_error_iff:
  assumes h: "hex_color_string h"
  shows "(\<exists>e. fst (update_pubspec h fs) = Inl e) \<longleftrightarrow>
         (search pattern_root [] (pubspec fs) = None \<or> search pattern_android12 [] (pubspec fs) = None)"
proof (cases h fs rule: update_cases)
  case no_root
  then show ?thesis by simp
next
  case (no_a12 a g v w b)
  from other(1)[OF is_a12 no_a12(3) hex_color_colorstr[OF h], where x="a @ g" and y'="w @ b"] no_a12(4)
  have "search pattern_android12 [] (pubspec fs) = None" using no_a12(2) by simp
  then show ?thesis using no_a12(5) by simp
next
  case (ok a g v w b a' g' v' w' b')
  from other(1)[OF is_a12 ok(3) hex_color_colorstr[OF h], where x="a @ g" and y'="w @ b"] ok(4)
  have "search pattern_android12 [] (pubspec fs) \<noteq> None" using ok(2) by simp
  then show ?thesis using ok(1,7) by simp
qed

lemma update_found:
  assumes h: "hex_color_string h"
    and root: "search pattern_root [] (pubspec fs) = Some (a, [[], g1, v, g2, []], b)"
    and nested: "search pattern_android12 [] (pubspec fs) = Some (a', [[], k1, v', k2, []], b')"
  shows "\<exists>fs'. update_pubspec h fs = (Inr (v \<noteq> h \<or> v' \<noteq> h), fs') \<and>
           app_config fs' = app_config fs \<and>
           (\<exists>a2 g1' g2' b2. search pattern_root [] (pubspec fs') = Some (a2, [[], g1', h, g2', []], b2)) \<and>
           (\<exists>a3 k1' k2' b3. search pattern_android12 [] (pubspec fs') = Some (a3, [[], k1', h, k2', []], b3))"
proof (cases "v = h \<and> v' = h")
  case True
  from update_in_sync[of fs a g1 h g2 b a' k1 k2 b'] root nested True
  have "update_pubspec h fs = (Inr False, fs)" by simp
  then show ?thesis using True root nested by - (rule exI[of _ fs], auto)
next
  case False
  show ?thesis
  proof (cases h fs rule: update_cases)
    case no_root
    then show ?thesis using root by simp
  next
    case (no_a12 a0 g v0 w b0)
    from update_error_iff[OF h, of fs] no_a12(5) root nested show ?thesis by simp
  next
    case (ok a0 g v0 w b0 a0' g' v0' w' b0')
    let ?t2 = "a0' @ g' @ 34 # h @ 34 # w' @ b0'"
    from update_ok_final[OF h ok(1,2,3,4,5,6)] obtain a2 b2 where
      1: "search pattern_android12 [] ?t2 = Some (a0', [[], g' @ [34], h, 34 # w', []], b0')"
      and 2: "search pattern_root [] ?t2 = Some (a2, [[], g @ [34], h, 34 # w, []], b2)"
      by blast
    have ne: "?t2 \<noteq> pubspec fs"
    proof
      assume eq: "?t2 = pubspec fs"
      from 2 root have "v = h" unfolding eq by simp
      moreover from 1 nested have "v' = h" unfolding eq by simp
      ultimately show False using False by simp
    qed
    have "update_pubspec h fs = (Inr (v \<noteq> h \<or> v' \<noteq> h), fs\<lparr>pubspec := ?t2\<rparr>)"
      using ok(7) ne False by auto
    then show ?thesis using 1 2 by - (rule exI[of _ "fs\<lparr>pubspec := ?t2\<rparr>"], simp)
  qed
qed

lemma theme_color_string:
  assumes "search pattern_theme [] t = Some (a, [s0, D, s2], b)"
  shows "hex_color_string (str ''#'' @ upper D)"
proof -
  from search_SomeD[OF assms] obtain r1 where "m pattern_theme (last_opt a) r1 [] [] = Some ([s0, D, s2], b)"
    by blast
  from theme_shape[OF this] have D: "list_all (in_cls hex_class) D" "length D = 6" by auto
  have "list_all (in_cls upper_hex_class) (upper D)"
    using D(1) by (auto simp: upper_def upper_char_def hex_class_def upper_hex_class_def list_all_iff)
  then show ?thesis using D(2) by (simp add: hex_color_string_def str_def upper_def)
qed

lemma extract_of_search:
  "search pattern_theme [] (app_config fs) = Some (a, [s0, D, s2], b) \<Longrightarrow>
   extract_theme_hex fs = Inr (str ''#'' @ upper D)"
  by (simp add: extract_theme_hex_def group_def)

lemma extract_app_config:
  "app_config fs' = app_config fs \<Longrightarrow> extract_theme_hex fs' = extract_theme_hex fs"
  by (simp add: extract_theme_hex_def)

section \<open>The declaration: what \<open>extract_theme_hex\<close> returns\<close>

text \<open>
  C1, as the code has it. On a declaration text that contains
  \<^verbatim>\<open>themePrimaryColorValue = 0xFF\<close> followed by six hexadecimal digits \<open>D\<close>,
  \<open>extract_theme_hex\<close> succeeds; it returns \<^verbatim>\<open>#\<close> and \<open>D\<close> in upper case when that
  occurrence is the first match of the pattern, that is, when no match starts further left.
\<close>

theorem extract_theme_hex_first_match:
  assumes t: "app_config fs = pre @ str ''themePrimaryColorValue = 0xFF'' @ D @ post"
    and D: "length D = 6" "list_all (in_cls hex_class) D"
  shows "(\<exists>r. extract_theme_hex fs = Inr r) \<and>
         ((\<forall>i<length pre. m pattern_theme (last_opt (take i (app_config fs)))
              (drop i (app_config fs)) [] [] = None) \<longrightarrow>
          extract_theme_hex fs = Inr (str ''#'' @ upper D))"
proof -
  let ?lit = "str ''themePrimaryColorValue = 0xFF''"
  have lit: "?lit = ident @ [32] @ 61 # [32] @ str ''0xFF''"
    by (simp add: str_def ident_def)
  have mm: "m pattern_theme p (?lit @ D @ post) [] [] = Some ([?lit, D, []], post)" for p
    using theme_complete[of "[32]" "[32]" D p post] D unfolding lit
    by (simp add: space_class_def)
  have "search pattern_theme [] (pre @ ?lit @ D @ post) \<noteq> None"
    using search_found[of pattern_theme "[]" pre "?lit @ D @ post"] mm by simp
  then have 1: "\<exists>r. extract_theme_hex fs = Inr r"
    unfolding extract_theme_hex_def t by (auto simp: Let_def)
  have 2: "extract_theme_hex fs = Inr (str ''#'' @ upper D)"
    if n: "\<forall>i<length pre. m pattern_theme (last_opt (take i (app_config fs)))
              (drop i (app_config fs)) [] [] = None"
  proof -
    have "\<forall>i<length pre. m pattern_theme (last_opt (take i pre)) (drop i pre @ ?lit @ D @ post) [] [] = None"
    proof (intro allI impI)
      fix i assume i: "i < length pre"
      have tk: "take i (app_config fs) = take i pre" using i by (simp add: t)
      have dr: "drop i (app_config fs) = drop i pre @ ?lit @ D @ post" using i by (simp add: t)
      from n[rule_format, OF i]
      show "m pattern_theme (last_opt (take i pre)) (drop i pre @ ?lit @ D @ post) [] [] = None"
        by (simp only: tk dr)
    qed
    from search_leftmost[OF mm this]
    have "search pattern_theme [] (app_config fs) = Some (pre, [?lit, D, []], post)"
      unfolding t .
    then show ?thesis by (simp add: extract_theme_hex_def group_def)
  qed
  show ?thesis using 1 2 by blast
qed

theorem extract_theme_hex_first_match_witness:
  "first_match pattern_theme
     (str ''  '' @ str ''themePrimaryColorValue = 0xFF'' @ str ''a1B2c3'' @ str '';'')
     (str ''  '') [str ''themePrimaryColorValue = 0xFF'', str ''a1B2c3'', []] (str '';'') \<and>
   extract_theme_hex
     \<lparr>app_config = str ''  '' @ str ''themePrimaryColorValue = 0xFF'' @ str ''a1B2c3'' @ str '';'',
      pubspec = []\<rparr> = Inr (str ''#A1B2C3'')"
proof -
  have 1: "app_config \<lparr>app_config = str ''  '' @ str ''themePrimaryColorValue = 0xFF'' @
             str ''a1B2c3'' @ str '';'', pubspec = []\<rparr> =
           str ''  '' @ str ''themePrimaryColorValue = 0xFF'' @ str ''a1B2c3'' @ str '';''"
    by simp
  have 2: "length (str ''a1B2c3'') = 6" by (simp add: str_def)
  have 3: "list_all (in_cls hex_class) (str ''a1B2c3'')" by (simp add: str_def hex_class_def)
  have 4: "\<forall>i<length (str ''  ''). m pattern_theme
      (last_opt (take i (str ''  '' @ str ''themePrimaryColorValue = 0xFF'' @ str ''a1B2c3'' @ str '';'')))
      (drop i (str ''  '' @ str ''themePrimaryColorValue = 0xFF'' @ str ''a1B2c3'' @ str '';'')) [] [] = None"
    by (simp add: eval_defs less_Suc_eq)
  have 5: "upper (str ''a1B2c3'') = str ''A1B2C3''" by (simp add: eval_defs)
  have 6: "first_match pattern_theme
     (str ''  '' @ str ''themePrimaryColorValue = 0xFF'' @ str ''a1B2c3'' @ str '';'')
     (str ''  '') [str ''themePrimaryColorValue = 0xFF'', str ''a1B2c3'', []] (str '';'')"
    by (simp add: first_match_def eval_defs less_Suc_eq)
  from extract_theme_hex_first_match[OF 1 2 3] 4 5 6 show ?thesis by (simp add: str_def)
qed

text \<open>
  The counterexample to C1 as stated: a declaration text with two assignments. It contains
  \<^verbatim>\<open>themePrimaryColorValue = 0xFF\<close> followed by \<^verbatim>\<open>2196F3\<close>, and the result is the colour
  of the first assignment.
\<close>

theorem second_declaration_counterexample:
  "extract_theme_hex
     \<lparr>app_config = (str ''themePrimaryColorValue = 0xFF111111;'' @ nl) @
        str ''themePrimaryColorValue = 0xFF'' @ str ''2196F3'' @ str '';'',
      pubspec = []\<rparr> = Inr (str ''#111111'') \<and>
   str ''#111111'' \<noteq> str ''#'' @ upper (str ''2196F3'')"
  by (simp add: eval_defs nl_def)

text \<open>
  C3, as the code has it. The pattern is case-insensitive on the six digits of the colour
  and on nothing else: texts that differ only in the case of the six digits of the first
  match give the same result, which is in upper case. The prefix \<^verbatim>\<open>0xFF\<close> is matched as
  it is written.
\<close>

theorem extract_theme_hex_digit_case:
  assumes s: "first_match pattern_theme (app_config fs) a [s0, D, s2] b"
    and D': "list_all (in_cls hex_class) D'" "upper D' = upper D"
  shows "extract_theme_hex fs = Inr (str ''#'' @ upper D) \<and>
         extract_theme_hex (fs\<lparr>app_config := a @ s0 @ D' @ s2 @ b\<rparr>) = Inr (str ''#'' @ upper D) \<and>
         length D = 6 \<and> list_all (in_cls upper_hex_class) (upper D)"
proof -
  from s have s': "search pattern_theme [] (app_config fs) = Some (a, [s0, D, s2], b)"
    by (simp add: search_first_match)
  from search_SomeD[OF s'] obtain u r1 where u: "a = [] @ u" "app_config fs = u @ r1"
    "m pattern_theme (last_opt a) r1 [] [] = Some ([s0, D, s2], b)"
    "\<forall>i<length u. m pattern_theme (last_opt ([] @ take i u)) (drop i (app_config fs)) [] [] = None"
    by blast
  have ua: "u = a" using u(1) by simp
  from theme_shape[OF u(3)] obtain ws1 ws2 where w: "list_all (in_cls space_class) ws1"
    "list_all (in_cls space_class) ws2" "list_all (in_cls hex_class) D" "length D = 6"
    and r1: "r1 = ident @ ws1 @ 61 # ws2 @ str ''0xFF'' @ D @ b"
    and s0: "s0 = ident @ ws1 @ 61 # ws2 @ str ''0xFF''" and s2: "s2 = []"
    by auto
  from D'(2)[unfolded upper_def] have "length D' = length D" by (rule map_eq_imp_length_eq)
  then have l: "length D' = 6" using w(4) by simp
  have mm: "m pattern_theme (last_opt a) (s0 @ D' @ b) [] [] = Some ([s0, D', []], b)"
    unfolding s0 using theme_complete[OF w(1,2) D'(1) l, of "last_opt a" b] by simp
  have n: "\<forall>i<length a. m pattern_theme (last_opt (take i a)) (drop i a @ s0 @ D' @ b) [] [] = None"
  proof (intro allI impI)
    fix i assume i: "i < length a"
    have d: "drop i (app_config fs) = drop i a @ ident @ (ws1 @ 61 # ws2 @ str ''0xFF'' @ D @ b)"
      using i u(2) ua r1 by simp
    have x: "drop i a \<noteq> []" using i by simp
    from u(4)[rule_format, of i] i ua d
    have "m pattern_theme (last_opt (take i a)) (drop i a @ ident @ (ws1 @ 61 # ws2 @ str ''0xFF'' @ D @ b)) [] [] = None"
      by simp
    with theme_barrier[OF x, of "last_opt (take i a)" "ws1 @ 61 # ws2 @ str ''0xFF'' @ D @ b"
        "ws1 @ 61 # ws2 @ str ''0xFF'' @ D' @ b"]
    show "m pattern_theme (last_opt (take i a)) (drop i a @ s0 @ D' @ b) [] [] = None"
      unfolding s0 by simp
  qed
  from search_leftmost[OF mm n]
  have "search pattern_theme [] (a @ s0 @ D' @ s2 @ b) = Some (a, [s0, D', []], b)"
    unfolding s2 by simp
  then have 2: "extract_theme_hex (fs\<lparr>app_config := a @ s0 @ D' @ s2 @ b\<rparr>) = Inr (str ''#'' @ upper D)"
    using D'(2) by (simp add: extract_theme_hex_def group_def)
  have 1: "extract_theme_hex fs = Inr (str ''#'' @ upper D)"
    using s' by (simp add: extract_theme_hex_def group_def)
  have 3: "list_all (in_cls upper_hex_class) (upper D)"
    using w(3) by (auto simp: upper_def upper_char_def hex_class_def upper_hex_class_def list_all_iff)
  show ?thesis using 1 2 3 w(4) by blast
qed

theorem extract_theme_hex_digit_case_witness:
  "first_match pattern_theme (str ''themePrimaryColorValue = 0xFFa1b2c3'') []
     [str ''themePrimaryColorValue = 0xFF'', str ''a1b2c3'', []] [] \<and>
   extract_theme_hex \<lparr>app_config = str ''themePrimaryColorValue = 0xFFa1b2c3'', pubspec = []\<rparr> =
     Inr (str ''#A1B2C3'') \<and>
   extract_theme_hex \<lparr>app_config = str ''themePrimaryColorValue = 0xFFA1B2C3'', pubspec = []\<rparr> =
     Inr (str ''#A1B2C3'')"
proof -
  have 1: "first_match pattern_theme
      (app_config \<lparr>app_config = str ''themePrimaryColorValue = 0xFFa1b2c3'', pubspec = []\<rparr>) []
      [str ''themePrimaryColorValue = 0xFF'', str ''a1b2c3'', []] []"
    by (simp add: first_match_def eval_defs)
  have 2: "list_all (in_cls hex_class) (str ''A1B2C3'')" by (simp add: str_def hex_class_def)
  have 3: "upper (str ''A1B2C3'') = upper (str ''a1b2c3'')" by (simp add: eval_defs)
  have 4: "upper (str ''a1b2c3'') = str ''A1B2C3''" by (simp add: eval_defs)
  from extract_theme_hex_digit_case[OF 1 2 3] 1 4 show ?thesis by (simp add: str_def)
qed

text \<open>
  The counterexample to C3 as stated: with the prefix in lower case, \<^verbatim>\<open>0xffa1b2c3\<close>, the
  pattern does not match and \<^verbatim>\<open>SystemExit\<close> is raised, while \<^verbatim>\<open>0xFFA1B2C3\<close> gives
  \<^verbatim>\<open>#A1B2C3\<close>.
\<close>

theorem lowercase_prefix_counterexample:
  "extract_theme_hex \<lparr>app_config = str ''themePrimaryColorValue = 0xffa1b2c3'', pubspec = []\<rparr> =
     Inl (SystemExit missing_theme_message) \<and>
   extract_theme_hex \<lparr>app_config = str ''themePrimaryColorValue = 0xFFA1B2C3'', pubspec = []\<rparr> =
     Inr (str ''#A1B2C3'')"
  by (simp add: eval_defs)

section \<open>The manifest: what \<open>update_pubspec\<close> rewrites\<close>

text \<open>
  C2, as the code has it. After \<open>update_pubspec\<close> succeeds with a colour string of the
  specification, the text it leaves holds that colour in the first match of the root
  pattern and in the first match of the \<^verbatim>\<open>android_12\<close> pattern. The root pattern asks
  for a \<^verbatim>\<open>color:\<close> line at any indentation, so its first match may be the line under
  \<^verbatim>\<open>android_12:\<close> itself.
\<close>

theorem update_pubspec_sets_both_matches:
  assumes h: "hex_color_string h" and u: "update_pubspec h fs = (Inr changed, fs')"
  shows "(\<exists>a g1 g2 b. first_match pattern_root (pubspec fs') a [[], g1, h, g2, []] b) \<and>
         (\<exists>a g1 g2 b. first_match pattern_android12 (pubspec fs') a [[], g1, h, g2, []] b)"
proof (cases h fs rule: update_cases)
  case no_root
  then show ?thesis using u by simp
next
  case (no_a12 a g v w b)
  then show ?thesis using u by simp
next
  case (ok a g v w b a' g' v' w' b')
  from ok(7) u have fs': "pubspec fs' = a' @ g' @ 34 # h @ 34 # w' @ b'" by auto
  from update_ok_final[OF h ok(1,2,3,4,5,6)] show ?thesis
    unfolding fs' search_first_match by blast
qed

theorem update_pubspec_sets_both_matches_witness:
  "hex_color_string (str ''#2196F3'') \<and>
   update_pubspec (str ''#2196F3'') \<lparr>app_config = [], pubspec = spec_manifest ''#000000''\<rparr> =
     (Inr True, \<lparr>app_config = [], pubspec = spec_manifest ''#2196F3''\<rparr>) \<and>
   (\<exists>a g1 g2 b. first_match pattern_root (spec_manifest ''#2196F3'') a
      [[], g1, str ''#2196F3'', g2, []] b) \<and>
   (\<exists>a g1 g2 b. first_match pattern_android12 (spec_manifest ''#2196F3'') a
      [[], g1, str ''#2196F3'', g2, []] b)"
proof -
  have h: "hex_color_string (str ''#2196F3'')"
    by (simp add: hex_color_string_def upper_hex_class_def str_def)
  have u: "update_pubspec (str ''#2196F3'') \<lparr>app_config = [], pubspec = spec_manifest ''#000000''\<rparr> =
     (Inr True, \<lparr>app_config = [], pubspec = spec_manifest ''#2196F3''\<rparr>)"
    by (simp add: eval_defs spec_manifest_def nl_def)
  from update_pubspec_sets_both_matches[OF h u] show ?thesis using h u by simp
qed

text \<open>
  The manifest of the counterexample to C2 as stated: the \<^verbatim>\<open>android_12\<close> section comes
  before the root-level \<^verbatim>\<open>color\<close> line. The update succeeds, the one line rewritten is
  the nested one, and the root-level field keeps \<^verbatim>\<open>#000000\<close>.
\<close>

theorem root_field_nested_counterexample:
  "update_pubspec (str ''#2196F3'')
     \<lparr>app_config = [],
      pubspec = str ''flutter_native_splash:'' @ nl @ str ''  android_12:'' @ nl @
                str ''    color: \"#000000\"'' @ nl @ str ''  color: \"#000000\"'' @ nl\<rparr> =
   (Inr True,
     \<lparr>app_config = [],
      pubspec = str ''flutter_native_splash:'' @ nl @ str ''  android_12:'' @ nl @
                str ''    color: \"#2196F3\"'' @ nl @ str ''  color: \"#000000\"'' @ nl\<rparr>)"
  by (simp add: eval_defs nl_def)

text \<open>
  C4. When the root pattern or the \<^verbatim>\<open>android_12\<close> pattern matches nowhere in the manifest,
  \<open>update_pubspec\<close> raises \<^verbatim>\<open>SystemExit\<close> and leaves the files as they were.
\<close>

theorem update_pubspec_missing_field:
  assumes h: "hex_color_string h"
    and z: "search pattern_root [] (pubspec fs) = None \<or>
            search pattern_android12 [] (pubspec fs) = None"
  shows "update_pubspec h fs = (Inl (SystemExit missing_fields_message), fs)"
proof (cases h fs rule: update_cases)
  case no_root
  then show ?thesis by simp
next
  case (no_a12 a g v w b)
  then show ?thesis by simp
next
  case (ok a g v w b a' g' v' w' b')
  from z ok(1) have n: "search pattern_android12 [] ((a @ g) @ 34 # v @ 34 # w @ b) = None"
    using ok(2) by simp
  from other(1)[OF is_a12 ok(3) hex_color_colorstr[OF h], where x="a @ g" and y'="w @ b"] n
  have "search pattern_android12 [] (a @ g @ 34 # h @ 34 # w @ b) = None" by simp
  with ok(4) show ?thesis by simp
qed

theorem update_pubspec_missing_field_witness:
  "hex_color_string (str ''#2196F3'') \<and>
   search pattern_android12 [] (str ''color: \"#000000\"'') = None \<and>
   update_pubspec (str ''#2196F3'') \<lparr>app_config = [], pubspec = str ''color: \"#000000\"''\<rparr> =
     (Inl (SystemExit missing_fields_message),
      \<lparr>app_config = [], pubspec = str ''color: \"#000000\"''\<rparr>)"
proof -
  have h: "hex_color_string (str ''#2196F3'')"
    by (simp add: hex_color_string_def upper_hex_class_def str_def)
  have n: "search pattern_android12 [] (str ''color: \"#000000\"'') = None"
    by (simp add: eval_defs)
  from update_pubspec_missing_field[OF h, of "\<lparr>app_config = [], pubspec = str ''color: \"#000000\"''\<rparr>"] n
  show ?thesis using h by simp
qed



text \<open>
  C6. A successful \<open>update_pubspec\<close> changes the manifest in two places only: the value of
  the first match of the root pattern, and then the value of the first match of the
  \<^verbatim>\<open>android_12\<close> pattern in the text so obtained. Everything before, between and after
  (later matches, indentation, quotes, trailing white space) is kept as it is.
\<close>

theorem update_pubspec_frame:
  assumes u: "update_pubspec h fs = (Inr changed, fs')"
  shows "\<exists>a g1 v g2 b a' k1 v' k2 b'.
           first_match pattern_root (pubspec fs) a [[], g1, v, g2, []] b \<and>
           pubspec fs = a @ g1 @ v @ g2 @ b \<and>
           first_match pattern_android12 (a @ g1 @ h @ g2 @ b) a' [[], k1, v', k2, []] b' \<and>
           a @ g1 @ h @ g2 @ b = a' @ k1 @ v' @ k2 @ b' \<and>
           fs' = fs\<lparr>pubspec := a' @ k1 @ h @ k2 @ b'\<rparr> \<and>
           changed = (pubspec fs' \<noteq> pubspec fs)"
proof (cases h fs rule: update_cases)
  case no_root
  then show ?thesis using u by simp
next
  case (no_a12 a g v w b)
  then show ?thesis using u by simp
next
  case (ok a g v w b a' g' v' w' b')
  from ok(7) u have fs': "fs' = fs\<lparr>pubspec := a' @ (g' @ [34]) @ h @ (34 # w') @ b'\<rparr>"
    and c: "changed = (pubspec fs' \<noteq> pubspec fs)" by auto
  have 1: "first_match pattern_root (pubspec fs) a [[], g @ [34], v, 34 # w, []] b"
    using ok(1) by (simp add: search_first_match)
  have 2: "pubspec fs = a @ (g @ [34]) @ v @ (34 # w) @ b" using ok(2) by simp
  have 3: "first_match pattern_android12 (a @ (g @ [34]) @ h @ (34 # w) @ b) a'
             [[], g' @ [34], v', 34 # w', []] b'"
    using ok(4) by (simp add: search_first_match)
  have 4: "a @ (g @ [34]) @ h @ (34 # w) @ b = a' @ (g' @ [34]) @ v' @ (34 # w') @ b'"
    using ok(5) by simp
  show ?thesis using 1 2 3 4 fs' c by blast
qed

theorem update_pubspec_frame_witness:
  "update_pubspec (str ''#2196F3'')
     \<lparr>app_config = [], pubspec = spec_manifest ''#000000'' @ str ''color: \"#111111\"''\<rparr> =
     (Inr True, \<lparr>app_config = [], pubspec = spec_manifest ''#2196F3'' @ str ''color: \"#111111\"''\<rparr>) \<and>
   (\<exists>a g1 v g2 b a' k1 v' k2 b'.
      first_match pattern_root
        (pubspec \<lparr>app_config = [], pubspec = spec_manifest ''#000000'' @ str ''color: \"#111111\"''\<rparr>)
        a [[], g1, v, g2, []] b \<and>
      pubspec \<lparr>app_config = [], pubspec = spec_manifest ''#000000'' @ str ''color: \"#111111\"''\<rparr> =
        a @ g1 @ v @ g2 @ b \<and>
      first_match pattern_android12 (a @ g1 @ str ''#2196F3'' @ g2 @ b) a' [[], k1, v', k2, []] b' \<and>
      a @ g1 @ str ''#2196F3'' @ g2 @ b = a' @ k1 @ v' @ k2 @ b' \<and>
      \<lparr>app_config = [], pubspec = spec_manifest ''#2196F3'' @ str ''color: \"#111111\"''\<rparr> =
        \<lparr>app_config = [], pubspec = spec_manifest ''#000000'' @ str ''color: \"#111111\"''\<rparr>
          \<lparr>pubspec := a' @ k1 @ str ''#2196F3'' @ k2 @ b'\<rparr> \<and>
      True =
        (pubspec \<lparr>app_config = [], pubspec = spec_manifest ''#2196F3'' @ str ''color: \"#111111\"''\<rparr> \<noteq>
         pubspec \<lparr>app_config = [], pubspec = spec_manifest ''#000000'' @ str ''color: \"#111111\"''\<rparr>))"
proof -
  have u: "update_pubspec (str ''#2196F3'')
     \<lparr>app_config = [], pubspec = spec_manifest ''#000000'' @ str ''color: \"#111111\"''\<rparr> =
     (Inr True, \<lparr>app_config = [], pubspec = spec_manifest ''#2196F3'' @ str ''color: \"#111111\"''\<rparr>)"
    by (simp add: eval_defs spec_manifest_def nl_def)
  show ?thesis by (rule conjI[OF u update_pubspec_frame[OF u]])
qed

text \<open>
  C7, as the code has it. \<open>update_pubspec\<close> has one error for both fields: whichever
  pattern found nothing, it raises \<^verbatim>\<open>SystemExit\<close> with the one message that names both
  expected entries, and the files are as they were.
\<close>

theorem update_pubspec_one_error:
  "fst (update_pubspec h fs) = Inl e \<Longrightarrow>
   e = SystemExit missing_fields_message \<and> snd (update_pubspec h fs) = fs"
  by (cases h fs rule: update_cases) auto

theorem update_pubspec_one_error_witness:
  "fst (update_pubspec (str ''#2196F3'') \<lparr>app_config = [], pubspec = str ''image: logo.png''\<rparr>) =
     Inl (SystemExit missing_fields_message) \<and>
   snd (update_pubspec (str ''#2196F3'') \<lparr>app_config = [], pubspec = str ''image: logo.png''\<rparr>) =
     \<lparr>app_config = [], pubspec = str ''image: logo.png''\<rparr>"
proof -
  have e: "fst (update_pubspec (str ''#2196F3'') \<lparr>app_config = [], pubspec = str ''image: logo.png''\<rparr>) =
     Inl (SystemExit missing_fields_message)"
    by (simp add: eval_defs)
  from update_pubspec_one_error[OF e] show ?thesis using e by simp
qed

text \<open>
  The counterexample to C7 as stated: a manifest with no colour line at all and a manifest
  with the root line but no \<^verbatim>\<open>android_12\<close> section get the same error.
\<close>

theorem missing_field_errors_equal_counterexample:
  "search pattern_root [] (str ''image: logo.png'') = None \<and>
   search pattern_root [] (str ''color: \"#000000\"'') \<noteq> None \<and>
   search pattern_android12 [] (str ''color: \"#000000\"'') = None \<and>
   fst (update_pubspec (str ''#2196F3'') \<lparr>app_config = [], pubspec = str ''image: logo.png''\<rparr>) =
   fst (update_pubspec (str ''#2196F3'') \<lparr>app_config = [], pubspec = str ''color: \"#000000\"''\<rparr>)"
  by (simp add: eval_defs)

text \<open>
  C8, as the code has it. The value between the quotes is matched by \<^verbatim>\<open>[#0-9A-Fa-f]+\<close>,
  which needs one character at least: when \<open>update_pubspec\<close> succeeds, the value it has
  replaced in either field was not empty.
\<close>

theorem update_pubspec_old_values_nonempty:
  assumes u: "update_pubspec h fs = (Inr changed, fs')"
  shows "\<exists>a g1 v g2 b a' k1 v' k2 b'.
           search pattern_root [] (pubspec fs) = Some (a, [[], g1, v, g2, []], b) \<and> v \<noteq> [] \<and>
           search pattern_android12 [] (a @ g1 @ h @ g2 @ b) = Some (a', [[], k1, v', k2, []], b') \<and>
           v' \<noteq> []"
proof (cases h fs rule: update_cases)
  case no_root
  then show ?thesis using u by simp
next
  case (no_a12 a g v w b)
  then show ?thesis using u by simp
next
  case (ok a g v w b a' g' v' w' b')
  have 1: "v \<noteq> []" "v' \<noteq> []" using ok(3,6) by (simp_all add: colorstr_def)
  have 2: "search pattern_android12 [] (a @ (g @ [34]) @ h @ (34 # w) @ b) =
             Some (a', [[], g' @ [34], v', 34 # w', []], b')"
    using ok(4) by simp
  show ?thesis using ok(1) 1 2 by blast
qed

theorem update_pubspec_old_values_nonempty_witness:
  "update_pubspec (str ''#2196F3'') \<lparr>app_config = [], pubspec = spec_manifest ''#0''\<rparr> =
     (Inr True, \<lparr>app_config = [], pubspec = spec_manifest ''#2196F3''\<rparr>) \<and>
   (\<exists>a g1 v g2 b a' k1 v' k2 b'.
      search pattern_root [] (spec_manifest ''#0'') = Some (a, [[], g1, v, g2, []], b) \<and> v \<noteq> [] \<and>
      search pattern_android12 [] (a @ g1 @ str ''#2196F3'' @ g2 @ b) =
        Some (a', [[], k1, v', k2, []], b') \<and> v' \<noteq> [])"
proof -
  have u: "update_pubspec (str ''#2196F3'') \<lparr>app_config = [], pubspec = spec_manifest ''#0''\<rparr> =
     (Inr True, \<lparr>app_config = [], pubspec = spec_manifest ''#2196F3''\<rparr>)"
    by (simp add: eval_defs spec_manifest_def nl_def)
  from update_pubspec_old_values_nonempty[OF u] show ?thesis using u by simp
qed

text \<open>
  The counterexample to C8 as stated: with \<^verbatim>\<open>color: ""\<close> in both places no field is
  located and the error is raised.
\<close>

theorem empty_value_counterexample:
  "update_pubspec (str ''#2196F3'') \<lparr>app_config = [], pubspec = spec_manifest ''''\<rparr> =
     (Inl (SystemExit missing_fields_message), \<lparr>app_config = [], pubspec = spec_manifest ''''\<rparr>)"
  by (simp add: eval_defs spec_manifest_def nl_def)

text \<open>
  C10, as the code has it. A colour field is recognised only with a value that is not
  empty and made of \<^verbatim>\<open>#\<close> and hexadecimal digits: every match of the root pattern and of
  the \<^verbatim>\<open>android_12\<close> pattern has such a value, so a line \<^verbatim>\<open>color: "none"\<close> is never a
  match. The error is raised exactly when one of the two patterns has no match anywhere in
  the manifest: a manifest whose colour lines all hold \<^verbatim>\<open>"none"\<close> has no match of the root
  pattern, and \<open>update_pubspec\<close> raises the error and leaves the files.
\<close>

theorem color_field_value:
  "((P = pattern_root \<or> P = pattern_android12) \<and> search P [] t = Some (a, segs, b) \<longrightarrow>
      (\<exists>g1 v g2. segs = [[], g1, v, g2, []] \<and> v \<noteq> [] \<and> list_all (in_cls color_class) v)) \<and>
   (hex_color_string h \<longrightarrow>
      ((\<exists>e. update_pubspec h fs = (Inl e, fs)) \<longleftrightarrow>
       search pattern_root [] (pubspec fs) = None \<or>
       search pattern_android12 [] (pubspec fs) = None) \<and>
      ((\<exists>e. fst (update_pubspec h fs) = Inl e) \<longleftrightarrow>
       search pattern_root [] (pubspec fs) = None \<or>
       search pattern_android12 [] (pubspec fs) = None)) \<and>
   search pattern_root [] (spec_manifest ''none'') = None \<and>
   update_pubspec h' \<lparr>app_config = c, pubspec = spec_manifest ''none''\<rparr> =
     (Inl (SystemExit missing_fields_message), \<lparr>app_config = c, pubspec = spec_manifest ''none''\<rparr>)"
proof -
  have n: "search pattern_root [] (spec_manifest ''none'') = None"
    by (simp add: eval_defs spec_manifest_def nl_def)
  have u: "update_pubspec h' \<lparr>app_config = c, pubspec = spec_manifest ''none''\<rparr> =
     (Inl (SystemExit missing_fields_message), \<lparr>app_config = c, pubspec = spec_manifest ''none''\<rparr>)"
    using update_fail_root[of "\<lparr>app_config = c, pubspec = spec_manifest ''none''\<rparr>" h'] n by simp
  have e: "hex_color_string h \<longrightarrow>
      ((\<exists>e. update_pubspec h fs = (Inl e, fs)) \<longleftrightarrow>
       search pattern_root [] (pubspec fs) = None \<or>
       search pattern_android12 [] (pubspec fs) = None) \<and>
      ((\<exists>e. fst (update_pubspec h fs) = Inl e) \<longleftrightarrow>
       search pattern_root [] (pubspec fs) = None \<or>
       search pattern_android12 [] (pubspec fs) = None)"
  proof
    assume h: "hex_color_string h"
    have k: "(\<exists>e. update_pubspec h fs = (Inl e, fs)) \<longleftrightarrow> (\<exists>e. fst (update_pubspec h fs) = Inl e)"
      by (cases h fs rule: update_cases) auto
    show "((\<exists>e. update_pubspec h fs = (Inl e, fs)) \<longleftrightarrow>
       search pattern_root [] (pubspec fs) = None \<or>
       search pattern_android12 [] (pubspec fs) = None) \<and>
      ((\<exists>e. fst (update_pubspec h fs) = Inl e) \<longleftrightarrow>
       search pattern_root [] (pubspec fs) = None \<or>
       search pattern_android12 [] (pubspec fs) = None)"
      unfolding k using update_error_iff[OF h, of fs] by simp
  qed
  from n u e show ?thesis using field_value_shape by blast
qed

theorem color_field_value_witness:
  "search pattern_root [] (str ''color: \"#0aF\"'') =
     Some ([], [[], str ''color: \"'', str ''#0aF'', str ''\"'', []], []) \<and>
   (\<exists>g1 v g2. [[], str ''color: \"'', str ''#0aF'', str ''\"'', []] = [[], g1, v, g2, []] \<and>
      v \<noteq> [] \<and> list_all (in_cls color_class) v) \<and>
   hex_color_string (str ''#2196F3'') \<and>
   search pattern_android12 [] (str ''color: \"#0aF\"'') = None \<and>
   (\<exists>e. update_pubspec (str ''#2196F3'') \<lparr>app_config = [], pubspec = str ''color: \"#0aF\"''\<rparr> =
      (Inl e, \<lparr>app_config = [], pubspec = str ''color: \"#0aF\"''\<rparr>))"
proof -
  have s: "search pattern_root [] (str ''color: \"#0aF\"'') =
     Some ([], [[], str ''color: \"'', str ''#0aF'', str ''\"'', []], [])"
    by (simp add: eval_defs)
  have h: "hex_color_string (str ''#2196F3'')"
    by (simp add: hex_color_string_def upper_hex_class_def str_def)
  have z: "search pattern_android12 [] (str ''color: \"#0aF\"'') = None"
    by (simp add: eval_defs)
  from color_field_value[of pattern_root "str ''color: \"#0aF\"''" "[]"
      "[[], str ''color: \"'', str ''#0aF'', str ''\"'', []]" "[]" "str ''#2196F3''"
      "\<lparr>app_config = [], pubspec = str ''color: \"#0aF\"''\<rparr>"] s h z
  show ?thesis by simp
qed

text \<open>
  A root line with another value does not by itself make the root pattern fail: the
  pattern goes on to any later line \<^verbatim>\<open>color: "<value>"\<close>. Here the only root-level colour
  line holds \<^verbatim>\<open>"none"\<close>; the root pattern matches the line under \<^verbatim>\<open>android_12:\<close>, no error
  is raised, and the root line is left as it was.
\<close>

theorem invalid_root_line_counterexample:
  "search pattern_root [] (str ''color: \"none\"'' @ nl @ str ''android_12:'' @ nl @
       str ''  color: \"#000000\"'' @ nl) =
     Some (str ''color: \"none\"'' @ nl @ str ''android_12:'' @ nl,
       [[], str ''  color: \"'', str ''#000000'', str ''\"'' @ nl, []], []) \<and>
   update_pubspec (str ''#2196F3'')
     \<lparr>app_config = [], pubspec = str ''color: \"none\"'' @ nl @ str ''android_12:'' @ nl @
       str ''  color: \"#000000\"'' @ nl\<rparr> =
     (Inr True, \<lparr>app_config = [], pubspec = str ''color: \"none\"'' @ nl @ str ''android_12:'' @ nl @
       str ''  color: \"#2196F3\"'' @ nl\<rparr>)"
  by (simp add: eval_defs nl_def)

section \<open>The end-to-end scenario\<close>

text \<open>
  C9, as the code has it. Let the first match of the theme pattern in the declaration have
  the digits \<open>D\<close> (\<^verbatim>\<open>2196F3\<close> in the scenario), and let the first match of the root pattern
  and the first match of the \<^verbatim>\<open>android_12\<close> pattern in the manifest hold values that are
  not both the colour \<^verbatim>\<open>#\<close>\<open>upper D\<close> already (both \<^verbatim>\<open>#000000\<close> in the scenario). Then
  \<open>main\<close> returns without an error, keeps the declaration, leaves a manifest in which the
  first match of each pattern holds the colour, and prints the one line
  \<^verbatim>\<open>Splash color updated: #\<close>\<open>upper D\<close>. Run again on the files it left, \<open>main\<close> leaves them as
  they are and prints the one line \<^verbatim>\<open>Splash color already in sync: #\<close>\<open>upper D\<close>.
\<close>

theorem main_end_to_end:
  assumes decl: "first_match pattern_theme (app_config fs) p [s0, D, s2] q"
    and root: "first_match pattern_root (pubspec fs) a [[], g1, v, g2, []] b"
    and nested: "first_match pattern_android12 (pubspec fs) a' [[], k1, v', k2, []] b'"
    and old: "v \<noteq> str ''#'' @ upper D \<or> v' \<noteq> str ''#'' @ upper D"
  shows "\<exists>fs'.
      main fs = (Inr (), fs', [str ''Splash color updated: '' @ str ''#'' @ upper D]) \<and>
      app_config fs' = app_config fs \<and>
      (\<exists>a2 g1' g2' b2.
         first_match pattern_root (pubspec fs') a2 [[], g1', str ''#'' @ upper D, g2', []] b2) \<and>
      (\<exists>a3 k1' k2' b3.
         first_match pattern_android12 (pubspec fs') a3 [[], k1', str ''#'' @ upper D, k2', []] b3) \<and>
      main fs' = (Inr (), fs', [str ''Splash color already in sync: '' @ str ''#'' @ upper D])"
proof -
  define h where "h = str ''#'' @ upper D"
  from decl have d: "search pattern_theme [] (app_config fs) = Some (p, [s0, D, s2], q)"
    by (simp add: search_first_match)
  from root have r: "search pattern_root [] (pubspec fs) = Some (a, [[], g1, v, g2, []], b)"
    by (simp add: search_first_match)
  from nested have n:
    "search pattern_android12 [] (pubspec fs) = Some (a', [[], k1, v', k2, []], b')"
    by (simp add: search_first_match)
  have h: "hex_color_string h" unfolding h_def by (rule theme_color_string[OF d])
  have e: "extract_theme_hex fs = Inr h" unfolding h_def by (rule extract_of_search[OF d])
  from old have old': "v \<noteq> h \<or> v' \<noteq> h" unfolding h_def .
  from update_found[OF h r n] old' obtain fs' where
    u: "update_pubspec h fs = (Inr True, fs')" and c: "app_config fs' = app_config fs"
    and r': "\<exists>a2 g1' g2' b2.
        search pattern_root [] (pubspec fs') = Some (a2, [[], g1', h, g2', []], b2)"
    and n': "\<exists>a3 k1' k2' b3.
        search pattern_android12 [] (pubspec fs') = Some (a3, [[], k1', h, k2', []], b3)"
    by auto
  have e': "extract_theme_hex fs' = Inr h" using extract_app_config[OF c] e by simp
  from update_twice[OF h, of fs] u have u': "update_pubspec h fs' = (Inr False, fs')" by blast
  have 1: "main fs = (Inr (), fs', [str ''Splash color updated: '' @ h])"
    by (simp add: main_def e u str_def)
  have 2: "main fs' = (Inr (), fs', [str ''Splash color already in sync: '' @ h])"
    by (simp add: main_def e' u' str_def)
  from r' have r'': "\<exists>a2 g1' g2' b2.
      first_match pattern_root (pubspec fs') a2 [[], g1', h, g2', []] b2"
    by (simp only: search_first_match)
  from n' have n'': "\<exists>a3 k1' k2' b3.
      first_match pattern_android12 (pubspec fs') a3 [[], k1', h, k2', []] b3"
    by (simp only: search_first_match)
  from 1 2 c r'' n'' show ?thesis unfolding h_def by blast
qed

theorem main_end_to_end_witness:
  "first_match pattern_theme scenario_declaration
     (str ''class AppConfig {'' @ nl @ str ''  static const int '')
     [str ''themePrimaryColorValue = 0xFF'', str ''2196F3'', []] (str '';'' @ nl @ str ''}'' @ nl) \<and>
   main \<lparr>app_config = scenario_declaration, pubspec = scenario_manifest ''#000000''\<rparr> =
     (Inr (), \<lparr>app_config = scenario_declaration, pubspec = scenario_manifest ''#2196F3''\<rparr>,
      [str ''Splash color updated: #2196F3'']) \<and>
   main \<lparr>app_config = scenario_declaration, pubspec = scenario_manifest ''#2196F3''\<rparr> =
     (Inr (), \<lparr>app_config = scenario_declaration, pubspec = scenario_manifest ''#2196F3''\<rparr>,
      [str ''Splash color already in sync: #2196F3''])"
proof -
  let ?fs = "\<lparr>app_config = scenario_declaration, pubspec = scenario_manifest ''#000000''\<rparr>"
  let ?fs' = "\<lparr>app_config = scenario_declaration, pubspec = scenario_manifest ''#2196F3''\<rparr>"
  have "search pattern_theme [] scenario_declaration =
      Some (str ''class AppConfig {'' @ nl @ str ''  static const int '',
        [str ''themePrimaryColorValue = 0xFF'', str ''2196F3'', []], str '';'' @ nl @ str ''}'' @ nl)"
    by (simp add: eval_defs scenario_declaration_def nl_def)
  then have d: "first_match pattern_theme (app_config ?fs)
      (str ''class AppConfig {'' @ nl @ str ''  static const int '')
      [str ''themePrimaryColorValue = 0xFF'', str ''2196F3'', []] (str '';'' @ nl @ str ''}'' @ nl)"
    by (simp only: search_first_match files.simps)
  have "search pattern_root [] (scenario_manifest ''#000000'') =
      Some (str ''flutter_native_splash:'' @ nl, [[], str ''  color: \"'', str ''#000000'', str ''\"'', []],
        nl @ str ''  image: assets/logo.png'' @ nl @ str ''  android_12:'' @ nl @
        str ''    color: \"#000000\"'' @ nl)"
    by (simp add: eval_defs scenario_manifest_def nl_def)
  then have r: "first_match pattern_root (pubspec ?fs) (str ''flutter_native_splash:'' @ nl)
      [[], str ''  color: \"'', str ''#000000'', str ''\"'', []]
      (nl @ str ''  image: assets/logo.png'' @ nl @ str ''  android_12:'' @ nl @
        str ''    color: \"#000000\"'' @ nl)"
    by (simp only: search_first_match files.simps)
  have "search pattern_android12 [] (scenario_manifest ''#000000'') =
      Some (str ''flutter_native_splash:'' @ nl @ str ''  color: \"#000000\"'' @ nl @
          str ''  image: assets/logo.png'' @ nl,
        [[], str ''  android_12:'' @ nl @ str ''    color: \"'', str ''#000000'', str ''\"'' @ nl, []],
        [])"
    by (simp add: eval_defs scenario_manifest_def nl_def)
  then have n: "first_match pattern_android12 (pubspec ?fs)
      (str ''flutter_native_splash:'' @ nl @ str ''  color: \"#000000\"'' @ nl @
          str ''  image: assets/logo.png'' @ nl)
      [[], str ''  android_12:'' @ nl @ str ''    color: \"'', str ''#000000'', str ''\"'' @ nl, []] []"
    by (simp only: search_first_match files.simps)
  have o: "str ''#000000'' \<noteq> str ''#'' @ upper (str ''2196F3'') \<or>
      str ''#000000'' \<noteq> str ''#'' @ upper (str ''2196F3'')"
    by (simp add: str_def upper_def upper_char_def)
  have c: "str ''#'' @ upper (str ''2196F3'') = str ''#2196F3''"
    by (simp add: str_def upper_def upper_char_def)
  from main_end_to_end[OF d r n o] obtain fs' where
    1: "main ?fs = (Inr (), fs', [str ''Splash color updated: '' @ str ''#2196F3''])"
    and 2: "main fs' = (Inr (), fs', [str ''Splash color already in sync: '' @ str ''#2196F3''])"
    unfolding c by blast
  have "main ?fs = (Inr (), ?fs', [str ''Splash color updated: #2196F3''])"
    by (simp add: eval_defs scenario_declaration_def scenario_manifest_def nl_def)
  with 1 have "fs' = ?fs'" by simp
  with 1 2 d show ?thesis by (simp add: str_def)
qed

text \<open>
  The scenario as the specification words it asks only that the declaration contains the
  assignment and that the manifest contains the two fields. With an assignment in a comment
  before it, the colour synchronised and printed is that of the comment; with the
  \<^verbatim>\<open>android_12\<close> section before the root field, both patterns find the nested line, and
  the root field keeps \<^verbatim>\<open>#000000\<close>.
\<close>

theorem scenario_first_match_counterexample:
  "main \<lparr>app_config = str ''// themePrimaryColorValue = 0xFF111111'' @ nl @
            str ''const int themePrimaryColorValue = 0xFF2196F3;'' @ nl,
         pubspec = scenario_manifest ''#000000''\<rparr> =
     (Inr (), \<lparr>app_config = str ''// themePrimaryColorValue = 0xFF111111'' @ nl @
            str ''const int themePrimaryColorValue = 0xFF2196F3;'' @ nl,
         pubspec = scenario_manifest ''#111111''\<rparr>,
      [str ''Splash color updated: #111111'']) \<and>
   main \<lparr>app_config = scenario_declaration,
         pubspec = str ''flutter_native_splash:'' @ nl @ str ''  android_12:'' @ nl @
            str ''    color: \"#000000\"'' @ nl @ str ''  color: \"#000000\"'' @ nl\<rparr> =
     (Inr (), \<lparr>app_config = scenario_declaration,
         pubspec = str ''flutter_native_splash:'' @ nl @ str ''  android_12:'' @ nl @
            str ''    color: \"#2196F3\"'' @ nl @ str ''  color: \"#000000\"'' @ nl\<rparr>,
      [str ''Splash color updated: #2196F3''])"
  by (simp add: eval_defs scenario_declaration_def scenario_manifest_def nl_def)

end
